theory Spec2Isabelle
  imports Main "HOL-Library.FSet" "HOL-Library.Product_Lexorder"
begin

section \<open>Data model of \<open>minesweeper.py\<close>\<close>

text \<open>
  A board cell is a Python tuple \<open>(i, j)\<close> of unbounded integers.  Python sets are finite,
  so they are finite sets here; the list \<open>self.knowledge\<close> is a list, in order and with
  duplicates.  A \<open>for\<close> loop over a set visits its elements in an order the language leaves
  open; the model visits them in ascending order, and the loops concerned only insert or
  delete the visited element, so that the order does not show in the result.
\<close>

type_synonym cell = "int \<times> int"

datatype error = ValueError | KeyError

record sentence =
  cells :: "cell fset"
  count :: int

record ai =
  height :: int
  width :: int
  moves_made :: "cell fset"
  mines :: "cell fset"
  safes :: "cell fset"
  knowledge :: "sentence list"

subsection \<open>Python primitives\<close>

text \<open>\<open>range(a, b)\<close> on integers.\<close>

definition py_range :: "int \<Rightarrow> int \<Rightarrow> int list" where
  "py_range a b = [a .. b - 1]"

text \<open>\<open>A and B\<close> on two sets: the first operand when it is falsy (empty), else the second.\<close>

definition py_and :: "'a fset \<Rightarrow> 'a fset \<Rightarrow> 'a fset" where
  "py_and A B = (if A = {||} then A else B)"

text \<open>\<open>xs.remove(x)\<close>: deletes the first element equal to \<open>x\<close>, raises \<open>ValueError\<close>
  when there is none.\<close>

fun list_remove :: "'a \<Rightarrow> 'a list \<Rightarrow> error + 'a list" where
  "list_remove x [] = Inl ValueError"
| "list_remove x (y # ys) =
     (if y = x then Inr ys
      else (case list_remove x ys of Inl e \<Rightarrow> Inl e | Inr zs \<Rightarrow> Inr (y # zs)))"

subsection \<open>class \<open>Sentence\<close>\<close>

text \<open>\<open>Sentence(cells, count)\<close> stores \<open>set(cells)\<close>.\<close>

definition Sentence :: "cell list \<Rightarrow> int \<Rightarrow> sentence" where
  "Sentence cs n = \<lparr>cells = fset_of_list cs, count = n\<rparr>"

text \<open>The methods take the object and return their result with the object as they
  leave it.\<close>

definition known_mines :: "sentence \<Rightarrow> cell fset \<times> sentence" where
  "known_mines self =
     (let mines0 = {||};
          mines1 = (if int (fcard (cells self)) = count self
                    then fold finsert (sorted_list_of_fset (cells self)) mines0
                    else mines0)
      in (mines1, self))"

definition known_safes :: "sentence \<Rightarrow> cell fset \<times> sentence" where
  "known_safes self =
     (let safe0 = {||};
          safe1 = (if count self = 0
                   then fold finsert (sorted_list_of_fset (cells self)) safe0
                   else safe0)
      in (safe1, self))"

text \<open>\<open>self.cells.remove(cell)\<close> runs only under \<open>cell in self.cells\<close>, where it cannot
  raise.\<close>

definition Sentence_mark_mine :: "sentence \<Rightarrow> cell \<Rightarrow> int \<times> sentence" where
  "Sentence_mark_mine self cell =
     (if cell |\<in>| cells self
      then (1, self\<lparr>cells := cells self |-| {|cell|}, count := count self - 1\<rparr>)
      else (0, self))"

definition Sentence_mark_safe :: "sentence \<Rightarrow> cell \<Rightarrow> int \<times> sentence" where
  "Sentence_mark_safe self cell =
     (if cell |\<in>| cells self
      then (1, self\<lparr>cells := cells self |-| {|cell|}\<rparr>)
      else (0, self))"

subsection \<open>class \<open>MinesweeperAI\<close>\<close>

definition init :: "int \<Rightarrow> int \<Rightarrow> ai" where
  "init h w = \<lparr>height = h, width = w, moves_made = {||}, mines = {||}, safes = {||},
               knowledge = []\<rparr>"

definition mark_mine :: "cell \<Rightarrow> ai \<Rightarrow> ai" where
  "mark_mine cell self =
     self\<lparr>mines := finsert cell (mines self),
          knowledge := map (\<lambda>s. snd (Sentence_mark_mine s cell)) (knowledge self)\<rparr>"

definition mark_safe :: "cell \<Rightarrow> ai \<Rightarrow> ai" where
  "mark_safe cell self =
     self\<lparr>safes := finsert cell (safes self),
          knowledge := map (\<lambda>s. snd (Sentence_mark_safe s cell)) (knowledge self)\<rparr>"

text \<open>The two nested loops of \<open>add_knowledge\<close> that collect the cells of the new
  sentence, in the order they append.\<close>

definition current_knowledge_cells :: "ai \<Rightarrow> cell \<Rightarrow> cell list" where
  "current_knowledge_cells self cell =
     concat (map (\<lambda>i. concat (map (\<lambda>j.
         if (i, j) = cell then []
         else if 0 \<le> i \<and> i < height self \<and> 0 \<le> j \<and> j < width self
         then (if \<not> (i, j) |\<in>| py_and (moves_made self) (safes self) then [(i, j)] else [])
         else [])
       (py_range (snd cell - 1) (snd cell + 2))))
     (py_range (fst cell - 1) (fst cell + 2)))"

text \<open>One round of the loop \<open>for sentence in self.knowledge\<close>, at the sentence the
  iterator has just produced.\<close>

definition infer :: "ai \<Rightarrow> sentence \<Rightarrow> error + ai" where
  "infer self sentence =
     (let known_safes = fst (known_safes sentence);
          known_mines = fst (known_mines sentence)
      in case (if known_safes \<noteq> {||}
               then (case list_remove sentence (knowledge self) of
                       Inl e \<Rightarrow> Inl e
                     | Inr kn \<Rightarrow> Inr (self\<lparr>safes := safes self |\<union>| known_safes, knowledge := kn\<rparr>))
               else Inr self) of
           Inl e \<Rightarrow> Inl e
         | Inr self1 \<Rightarrow>
             (if known_mines \<noteq> {||}
              then (case list_remove sentence (knowledge self1) of
                      Inl e \<Rightarrow> Inl e
                    | Inr kn \<Rightarrow>
                        Inr (fold mark_mine
                               (sorted_list_of_fset (known_mines |\<union>| mines self1))
                               (self1\<lparr>knowledge := kn\<rparr>)))
              else Inr self1))"

text \<open>The list iterator keeps an index into the list being mutated: it stops when the
  index reaches the current length, and a removal before the index makes it skip the
  element that moves into the freed place.\<close>

function propagate :: "nat \<Rightarrow> ai \<Rightarrow> error + ai" where
  "propagate i self =
     (if i < length (knowledge self)
      then (case infer self (knowledge self ! i) of
              Inl e \<Rightarrow> Inl e
            | Inr self' \<Rightarrow> propagate (i + 1) self')
      else Inr self)"
  by pat_completeness auto
termination
proof (relation "measure (\<lambda>(i, self). length (knowledge self) - i)")
  show "wf (measure (\<lambda>(i, self). length (knowledge self) - i))" by simp
next
  fix i :: nat and self x2 :: ai
  assume less: "i < length (knowledge self)"
    and res: "infer self (knowledge self ! i) = Inr x2"
  have removed: "length ys < length xs" if "list_remove x xs = Inr ys"
    for x :: sentence and xs ys
    using that by (induction xs arbitrary: ys) (auto split: if_splits sum.splits)
  have marked: "length (knowledge (fold mark_mine cs st)) = length (knowledge st)" for cs st
    by (induction cs arbitrary: st) (simp_all add: mark_mine_def)
  have "length (knowledge x2) \<le> length (knowledge self)"
    using res
    by (auto simp: infer_def Let_def marked split: if_splits sum.splits dest!: removed)
  with less show "((i + 1, x2), (i, self)) \<in> measure (\<lambda>(i, self). length (knowledge self) - i)"
    by simp
qed

text \<open>The \<open>print\<close> calls that end \<open>add_knowledge\<close> write to the console and leave the
  object alone; they have no counterpart here.\<close>

definition add_knowledge :: "ai \<Rightarrow> cell \<Rightarrow> int \<Rightarrow> error + ai" where
  "add_knowledge self cell n =
     (let self1 = self\<lparr>moves_made := finsert cell (moves_made self)\<rparr>;
          self2 = (if cell |\<notin>| safes self1 then mark_safe cell self1 else self1);
          cs = current_knowledge_cells self2 cell;
          self3 = (if length cs \<noteq> 0
                   then self2\<lparr>knowledge := knowledge self2 @ [Sentence cs n]\<rparr>
                   else self2)
      in propagate 0 self3)"

subsection \<open>Sequences of calls\<close>

datatype call = AddKnowledge cell int | MarkMine cell | MarkSafe cell

fun do_call :: "ai \<Rightarrow> call \<Rightarrow> error + ai" where
  "do_call self (AddKnowledge cell n) = add_knowledge self cell n"
| "do_call self (MarkMine cell) = Inr (mark_mine cell self)"
| "do_call self (MarkSafe cell) = Inr (mark_safe cell self)"

text \<open>A sequence of calls on one object; an exception ends it.\<close>

fun run :: "ai \<Rightarrow> call list \<Rightarrow> error + ai" where
  "run self [] = Inr self"
| "run self (c # cs) = (case do_call self c of Inl e \<Rightarrow> Inl e | Inr self' \<Rightarrow> run self' cs)"

subsection \<open>class \<open>Minesweeper\<close>: the board that answers the probes\<close>

text \<open>Of the game object only the fields that \<open>nearby_mines\<close> reads: the dimensions and
  the rows of booleans built by \<open>__init__\<close>.\<close>

record minesweeper =
  board_height :: int
  board_width :: int
  board :: "bool list list"

text \<open>\<open>__init__\<close> builds \<open>height\<close> rows of \<open>width\<close> entries and never resizes them.\<close>

definition board_ok :: "minesweeper \<Rightarrow> bool" where
  "board_ok g = (int (length (board g)) = board_height g \<and>
                 list_all (\<lambda>row. int (length row) = board_width g) (board g))"

text \<open>The test \<open>nearby_mines\<close> applies to each neighbour: in bounds and a mine.\<close>

definition mine_at :: "minesweeper \<Rightarrow> cell \<Rightarrow> bool" where
  "mine_at g c = (0 \<le> fst c \<and> fst c < board_height g \<and> 0 \<le> snd c \<and> snd c < board_width g \<and>
                  board g ! nat (fst c) ! nat (snd c))"

definition nearby_mines :: "minesweeper \<Rightarrow> cell \<Rightarrow> int" where
  "nearby_mines self cell =
     fold (\<lambda>i cnt. fold (\<lambda>j cnt.
         if (i, j) = cell then cnt
         else if 0 \<le> i \<and> i < board_height self \<and> 0 \<le> j \<and> j < board_width self
         then (if board self ! nat i ! nat j then cnt + 1 else cnt)
         else cnt)
       (py_range (snd cell - 1) (snd cell + 2)) cnt)
     (py_range (fst cell - 1) (fst cell + 2)) 0"

text \<open>A call agrees with the board when it tells the player a fact of that board:
  a probe of a cell that is no mine, with the count \<open>nearby_mines\<close> gives for it;
  a mine marked as a mine; a cell that is no mine marked as safe.\<close>

fun agrees :: "minesweeper \<Rightarrow> call \<Rightarrow> bool" where
  "agrees g (AddKnowledge cell n) = (\<not> mine_at g cell \<and> n = nearby_mines g cell)"
| "agrees g (MarkMine cell) = mine_at g cell"
| "agrees g (MarkSafe cell) = (\<not> mine_at g cell)"

subsection \<open>\<open>make_safe_move\<close> on a store of set objects\<close>

text \<open>
  \<open>make_safe_move\<close> copies a set and then updates the copy in place, so what it leaves
  of the object's own sets depends on which set object each name refers to.  The store
  is the list of the set objects allocated so far and a reference is an index into it.
  The object holds the references of its three sets and, for each sentence of
  \<open>self.knowledge\<close>, the reference of its cell set with its count.  \<open>field_values\<close> reads the
  values of the object's fields off a store.  \<open>pop\<close> removes and returns an element of
  the interpreter's choosing: \<open>pick\<close> stands for that choice.
\<close>

type_synonym store = "cell fset list"

record ai_refs =
  height_of :: int
  width_of :: int
  moves_made_ref :: nat
  mines_ref :: nat
  safes_ref :: nat
  knowledge_refs :: "(nat \<times> int) list"

definition field_values :: "ai_refs \<Rightarrow> store \<Rightarrow> ai" where
  "field_values self h =
     \<lparr>height = height_of self, width = width_of self,
      moves_made = h ! moves_made_ref self, mines = h ! mines_ref self,
      safes = h ! safes_ref self,
      knowledge = map (\<lambda>(r, n). \<lparr>cells = h ! r, count = n\<rparr>) (knowledge_refs self)\<rparr>"

definition set_copy :: "store \<Rightarrow> nat \<Rightarrow> store \<times> nat" where
  "set_copy h r = (h @ [h ! r], length h)"

definition set_isub :: "store \<Rightarrow> nat \<Rightarrow> nat \<Rightarrow> store" where
  "set_isub h r r' = h[r := h ! r |-| h ! r']"

definition set_pop :: "(cell fset \<Rightarrow> cell) \<Rightarrow> store \<Rightarrow> nat \<Rightarrow> store \<times> (error + cell)" where
  "set_pop pick h r =
     (if h ! r = {||} then (h, Inl KeyError)
      else (let x = pick (h ! r) in (h[r := h ! r |-| {|x|}], Inr x)))"

definition make_safe_move ::
  "(cell fset \<Rightarrow> cell) \<Rightarrow> ai_refs \<Rightarrow> store \<Rightarrow> store \<times> (error + cell option)" where
  "make_safe_move pick self h =
     (let (h1, safe_moves) = set_copy h (safes_ref self);
          h2 = set_isub h1 safe_moves (moves_made_ref self)
      in if fcard (h2 ! safe_moves) = 0 then (h2, Inr None)
         else (case set_pop pick h2 safe_moves of
                 (h3, Inl e) \<Rightarrow> (h3, Inl e)
               | (h3, Inr x) \<Rightarrow> (h3, Inr (Some x))))"

text \<open>The references of an object are those of allocated set objects.\<close>

definition refs_ok :: "ai_refs \<Rightarrow> store \<Rightarrow> bool" where
  "refs_ok self h = (moves_made_ref self < length h \<and> mines_ref self < length h \<and>
                     safes_ref self < length h \<and>
                     list_all (\<lambda>(r, n). r < length h) (knowledge_refs self))"

text \<open>What \<open>pop\<close> promises of its choice.\<close>

definition pick_ok :: "(cell fset \<Rightarrow> cell) \<Rightarrow> bool" where
  "pick_ok pick = (\<forall>S. S \<noteq> {||} \<longrightarrow> pick S |\<in>| S)"

definition pick_least :: "cell fset \<Rightarrow> cell" where
  "pick_least S = hd (sorted_list_of_fset S)"

subsection \<open>\<open>make_random_move\<close>\<close>

text \<open>
  The randomness source is the sequence \<open>rng\<close> of the raw numbers the generator will
  produce, read from position \<open>k\<close> on; \<open>random.randrange(n)\<close> raises \<open>ValueError\<close> for
  \<open>n \<le> 0\<close> and otherwise reduces its raw number into \<open>range(n)\<close>, so that every
  sequence of results in range comes from some source.  The \<open>while\<close> loop has no bound
  on its rounds: a run that never leaves it has the value \<open>None\<close>.
\<close>

definition randrange :: "nat \<Rightarrow> int \<Rightarrow> error + int" where
  "randrange raw n = (if n \<le> 0 then Inl ValueError else Inr (int raw mod n))"

partial_function (option) redraw ::
  "(nat \<Rightarrow> nat) \<Rightarrow> nat \<Rightarrow> ai \<Rightarrow> cell fset \<Rightarrow> cell \<Rightarrow> (error + cell) option" where
  "redraw rng k self not_safe_moves random_move =
     (if random_move |\<in>| not_safe_moves
      then (case randrange (rng k) (height self) of
              Inl e \<Rightarrow> Some (Inl e)
            | Inr i \<Rightarrow>
                (case randrange (rng (k + 1)) (width self) of
                   Inl e \<Rightarrow> Some (Inl e)
                 | Inr j \<Rightarrow> redraw rng (k + 2) self not_safe_moves (i, j)))
      else Some (Inr random_move))"

definition make_random_move :: "(nat \<Rightarrow> nat) \<Rightarrow> ai \<Rightarrow> (error + cell option) option" where
  "make_random_move rng self =
     (if fcard (moves_made self) = 56 then Some (Inr None)
      else (case randrange (rng 0) (height self) of
              Inl e \<Rightarrow> Some (Inl e)
            | Inr i \<Rightarrow>
                (case randrange (rng 1) (width self) of
                   Inl e \<Rightarrow> Some (Inl e)
                 | Inr j \<Rightarrow>
                     (let random_move = (i, j);
                          not_safe_moves = moves_made self |\<union>| mines self
                      in (case redraw rng 2 self not_safe_moves random_move of
                            None \<Rightarrow> None
                          | Some (Inl e) \<Rightarrow> Some (Inl e)
                          | Some (Inr c) \<Rightarrow> Some (Inr (Some c)))))))"

text \<open>The cells \<open>make_random_move\<close> is meant to choose among: on the board, not chosen
  before, not known to be mines.\<close>

definition all_cells :: "ai \<Rightarrow> cell fset" where
  "all_cells self =
     fset_of_list (concat (map (\<lambda>i. map (\<lambda>j. (i, j)) (py_range 0 (width self)))
                               (py_range 0 (height self))))"

definition candidates :: "ai \<Rightarrow> cell fset" where
  "candidates self = all_cells self |-| moves_made self |-| mines self"

subsection \<open>Predicates for stating the properties\<close>

text \<open>The positions the two nested \<open>range\<close> loops visit around a cell, the cell
  itself among them.\<close>

definition around :: "cell \<Rightarrow> cell list" where
  "around cell = List.product (py_range (fst cell - 1) (fst cell + 2))
                              (py_range (snd cell - 1) (snd cell + 2))"

text \<open>A state is sound for a board when its dimensions are the board's, every cell of
  \<open>self.mines\<close> is a mine there, no cell of \<open>self.safes\<close> is, and the count of every
  sentence is the number of mines among its cells.\<close>

definition sound :: "minesweeper \<Rightarrow> ai \<Rightarrow> bool" where
  "sound g self =
     (height self = board_height g \<and> width self = board_width g \<and>
      ffilter (mine_at g) (mines self) = mines self \<and>
      ffilter (mine_at g) (safes self) = {||} \<and>
      list_all (\<lambda>s. count s = int (fcard (ffilter (mine_at g) (cells s)))) (knowledge self))"

text \<open>No sentence of the knowledge base yields a deduction: both \<open>known_safes()\<close> and
  \<open>known_mines()\<close> are empty for each.\<close>

definition idle :: "ai \<Rightarrow> bool" where
  "idle self = list_all (\<lambda>s. fst (known_safes s) = {||} \<and> fst (known_mines s) = {||}) (knowledge self)"

text \<open>Local deduction has nothing left to add: what \<open>known_safes()\<close> and
  \<open>known_mines()\<close> give for a sentence of the knowledge base is in \<open>self.safes\<close> and
  \<open>self.mines\<close> already.\<close>

definition settled :: "ai \<Rightarrow> bool" where
  "settled self =
     list_all (\<lambda>s. fst (known_safes s) |\<subseteq>| safes self \<and> fst (known_mines s) |\<subseteq>| mines self)
       (knowledge self)"

text \<open>No sentence of the knowledge base mentions a cell of \<open>self.mines\<close> or
  \<open>self.safes\<close>.\<close>

definition purged :: "ai \<Rightarrow> bool" where
  "purged self =
     list_all (\<lambda>s. cells s |\<inter>| (mines self |\<union>| safes self) = {||}) (knowledge self)"

text \<open>What makes \<open>add_knowledge(cell, n)\<close> on a probed cell change nothing: the cell is
  in \<open>self.safes\<close>, no sentence of the knowledge base yields a deduction, and either the
  loops collect no neighbour, or the neighbours they collect number \<open>n\<close>, are all in
  \<open>self.mines\<close> already, and no sentence of the knowledge base mentions a cell of
  \<open>self.mines\<close>.\<close>

definition leaves_unchanged :: "ai \<Rightarrow> cell \<Rightarrow> int \<Rightarrow> bool" where
  "leaves_unchanged self cell n =
     (cell |\<in>| safes self \<and> idle self \<and>
      (let cs = current_knowledge_cells self cell
       in cs = [] \<or>
          (int (length cs) = n \<and> fset_of_list cs |\<subseteq>| mines self \<and>
           list_all (\<lambda>s. cells s |\<inter>| mines self = {||}) (knowledge self))))"

section \<open>Properties\<close>

declare propagate.simps [simp del]

subsection \<open>Auxiliary facts\<close>

lemma fold_finsert: "fold finsert xs A = fset_of_list xs |\<union>| A"
  by (induction xs arbitrary: A) auto

lemma known_mines_eq:
  "known_mines s = (if int (fcard (cells s)) = count s then cells s else {||}, s)"
  by (simp add: known_mines_def fold_finsert)

lemma known_safes_eq:
  "known_safes s = (if count s = 0 then cells s else {||}, s)"
  by (simp add: known_safes_def fold_finsert)

lemma list_remove_mem:
  "x \<in> set xs \<Longrightarrow> list_remove x xs = Inr (remove1 x xs)"
  by (induction xs) auto

lemma list_remove_subset:
  "list_remove x xs = Inr ys \<Longrightarrow> set ys \<subseteq> set xs"
  by (induction xs arbitrary: ys) (auto split: if_splits sum.splits)

lemma known_not_both:
  "fst (known_safes s) \<noteq> {||} \<Longrightarrow> fst (known_mines s) = {||}"
  by (cases "cells s = {||}") (auto simp: known_mines_eq known_safes_eq split: if_splits)

lemma infer_safe_case:
  assumes "fst (known_safes s) \<noteq> {||}" "s \<in> set (knowledge self)"
  shows "infer self s = Inr (self\<lparr>safes := safes self |\<union>| cells s, knowledge := remove1 s (knowledge self)\<rparr>)"
  using assms known_not_both[OF assms(1)]
  by (simp add: infer_def Let_def list_remove_mem) (simp add: known_safes_eq split: if_splits)

lemma infer_mine_case:
  assumes "fst (known_mines s) \<noteq> {||}" "s \<in> set (knowledge self)"
  shows "infer self s = Inr (fold mark_mine (sorted_list_of_fset (cells s |\<union>| mines self))
                                (self\<lparr>knowledge := remove1 s (knowledge self)\<rparr>))"
proof -
  have "fst (known_safes s) = {||}" using assms(1) known_not_both by blast
  then show ?thesis using assms
    by (simp add: infer_def Let_def list_remove_mem) (simp add: known_mines_eq split: if_splits)
qed

lemma infer_none_case:
  assumes "fst (known_safes s) = {||}" "fst (known_mines s) = {||}"
  shows "infer self s = Inr self"
  using assms by (simp add: infer_def Let_def)

lemma infer_cases:
  assumes "s \<in> set (knowledge self)"
  obtains (safe) "count s = 0" "cells s \<noteq> {||}"
      "infer self s = Inr (self\<lparr>safes := safes self |\<union>| cells s, knowledge := remove1 s (knowledge self)\<rparr>)"
  | (mine) "int (fcard (cells s)) = count s" "cells s \<noteq> {||}"
      "infer self s = Inr (fold mark_mine (sorted_list_of_fset (cells s |\<union>| mines self))
                                (self\<lparr>knowledge := remove1 s (knowledge self)\<rparr>))"
  | (none) "infer self s = Inr self"
proof (cases "fst (known_safes s) \<noteq> {||}")
  case True
  then show ?thesis using safe infer_safe_case[OF True assms]
    by (auto simp: known_safes_eq split: if_splits)
next
  case False
  show ?thesis
  proof (cases "fst (known_mines s) \<noteq> {||}")
    case True
    then show ?thesis using mine infer_mine_case[OF True assms]
      by (auto simp: known_mines_eq split: if_splits)
  next
    case F2: False
    then show ?thesis using none infer_none_case False by blast
  qed
qed

text \<open>Invariant rule for the loop of \<open>add_knowledge\<close>: what every round keeps, started on a
  sentence of the list, holds when the loop ends, and the loop ends without an exception.\<close>

lemma propagate_invariant:
  assumes "P self"
    and step: "\<And>st s. P st \<Longrightarrow> s \<in> set (knowledge st) \<Longrightarrow> \<exists>st'. infer st s = Inr st' \<and> P st'"
  shows "\<exists>self'. propagate i self = Inr self' \<and> P self'"
  using assms(1)
proof (induction i self rule: propagate.induct)
  case (1 i self)
  show ?case
  proof (cases "i < length (knowledge self)")
    case True
    then have "knowledge self ! i \<in> set (knowledge self)" by simp
    from step[OF "1.prems" this] obtain st' where st': "infer self (knowledge self ! i) = Inr st'" "P st'"
      by blast
    from "1.IH"[OF True st'(1) st'(2)] show ?thesis
      using True st'(1) by (subst propagate.simps) simp
  next
    case False
    then show ?thesis using "1.prems" by (subst propagate.simps) simp
  qed
qed

subsection \<open>What a call keeps and what it may add\<close>

lemma fold_mark_mine_frame:
  "moves_made (fold mark_mine cs st) = moves_made st"
  "safes (fold mark_mine cs st) = safes st"
  "height (fold mark_mine cs st) = height st"
  "width (fold mark_mine cs st) = width st"
  "mines (fold mark_mine cs st) = mines st |\<union>| fset_of_list cs"
  by (induction cs arbitrary: st) (auto simp: mark_mine_def)

lemma infer_grows:
  assumes "s \<in> set (knowledge st)"
  shows "\<exists>st'. infer st s = Inr st' \<and> moves_made st' = moves_made st \<and>
           height st' = height st \<and> width st' = width st \<and>
           mines st |\<subseteq>| mines st' \<and> safes st |\<subseteq>| safes st'"
  by (rule infer_cases[OF assms]) (auto simp: fold_mark_mine_frame)

lemma propagate_grows:
  "\<exists>st'. propagate i st = Inr st' \<and> moves_made st' = moves_made st \<and>
           height st' = height st \<and> width st' = width st \<and>
           mines st |\<subseteq>| mines st' \<and> safes st |\<subseteq>| safes st'"
proof -
  let ?P = "\<lambda>st'. moves_made st' = moves_made st \<and>
           height st' = height st \<and> width st' = width st \<and>
           mines st |\<subseteq>| mines st' \<and> safes st |\<subseteq>| safes st'"
  have "\<exists>st'. propagate i st = Inr st' \<and> ?P st'"
  proof (rule propagate_invariant)
    show "?P st" by simp
  next
    fix st1 :: ai and s :: sentence assume P: "?P st1" and s: "s \<in> set (knowledge st1)"
    from infer_grows[OF s] obtain st' where "infer st1 s = Inr st'" "moves_made st' = moves_made st1"
      "height st' = height st1" "width st' = width st1"
      "mines st1 |\<subseteq>| mines st'" "safes st1 |\<subseteq>| safes st'" by blast
    with P show "\<exists>st'. infer st1 s = Inr st' \<and> ?P st'" by auto
  qed
  then show ?thesis .
qed

lemma add_knowledge_grows:
  "\<exists>st'. add_knowledge st c n = Inr st' \<and> moves_made st' = finsert c (moves_made st) \<and>
           height st' = height st \<and> width st' = width st \<and>
           mines st |\<subseteq>| mines st' \<and> finsert c (safes st) |\<subseteq>| safes st'"
proof -
  define st3 where "st3 =
     (let self1 = st\<lparr>moves_made := finsert c (moves_made st)\<rparr>;
          self2 = (if c |\<notin>| safes self1 then mark_safe c self1 else self1);
          cs = current_knowledge_cells self2 c
      in (if length cs \<noteq> 0
                   then self2\<lparr>knowledge := knowledge self2 @ [Sentence cs n]\<rparr>
                   else self2))"
  have eq: "add_knowledge st c n = propagate 0 st3"
    by (simp add: add_knowledge_def st3_def Let_def)
  have f: "moves_made st3 = finsert c (moves_made st)" "height st3 = height st"
    "width st3 = width st" "mines st3 = mines st" "safes st3 = finsert c (safes st)"
    by (auto simp: st3_def Let_def mark_safe_def)
  from propagate_grows[of 0 st3] show ?thesis unfolding eq f by auto
qed

lemma do_call_grows:
  "\<exists>st'. do_call st c = Inr st' \<and> height st' = height st \<and> width st' = width st \<and>
     moves_made st |\<subseteq>| moves_made st' \<and> mines st |\<subseteq>| mines st' \<and> safes st |\<subseteq>| safes st'"
proof (cases c)
  case (AddKnowledge cell n)
  then show ?thesis using add_knowledge_grows[of st cell n] by auto
qed (auto simp: mark_mine_def mark_safe_def)

lemma run_grows:
  "\<exists>st'. run st cs = Inr st' \<and> height st' = height st \<and> width st' = width st \<and>
     moves_made st |\<subseteq>| moves_made st' \<and> mines st |\<subseteq>| mines st' \<and> safes st |\<subseteq>| safes st'"
proof (induction cs arbitrary: st)
  case Nil
  then show ?case by simp
next
  case (Cons c cs)
  from do_call_grows[of st c] obtain st1 where 1: "do_call st c = Inr st1" "height st1 = height st" "width st1 = width st"
     "moves_made st |\<subseteq>| moves_made st1" "mines st |\<subseteq>| mines st1" "safes st |\<subseteq>| safes st1" by blast
  from Cons.IH[of st1] obtain st2 where 2: "run st1 cs = Inr st2" "height st2 = height st1" "width st2 = width st1"
     "moves_made st1 |\<subseteq>| moves_made st2" "mines st1 |\<subseteq>| mines st2" "safes st1 |\<subseteq>| safes st2" by blast
  from 1 2 show ?case by auto
qed

lemma propagate_idle:
  assumes "idle st"
  shows "propagate i st = Inr st"
proof -
  have "\<exists>st'. propagate i st = Inr st' \<and> st' = st"
  proof (rule propagate_invariant)
    show "st = st" ..
  next
    fix st1 :: ai and s :: sentence assume "st1 = st" "s \<in> set (knowledge st1)"
    with assms show "\<exists>st'. infer st1 s = Inr st' \<and> st' = st"
      by (auto simp: idle_def list_all_iff intro: infer_none_case)
  qed
  then show ?thesis by simp
qed

lemma add_knowledge_noop:
  assumes "c |\<in>| moves_made st" "c |\<in>| safes st" "current_knowledge_cells st c = []" "idle st"
  shows "add_knowledge st c n = Inr st"
proof -
  have "st\<lparr>moves_made := finsert c (moves_made st)\<rparr> = st"
    using assms(1) by (simp add: finsert_absorb)
  then show ?thesis using assms
    by (simp add: add_knowledge_def Let_def propagate_idle)
qed

subsection \<open>The order of the loop over the mines\<close>

text \<open>Marking the cells of a set as mines has the same outcome in whatever order the
  loop visits them.\<close>

lemma Sentence_mark_mine_all:
  "distinct cs \<Longrightarrow>
   fold (\<lambda>c s. snd (Sentence_mark_mine s c)) cs s =
     s\<lparr>cells := cells s |-| fset_of_list cs,
       count := count s - int (fcard (cells s |\<inter>| fset_of_list cs))\<rparr>"
proof (induction cs arbitrary: s)
  case Nil
  then show ?case by simp
next
  case (Cons c cs)
  have c: "c |\<notin>| fset_of_list cs" using Cons.prems by (simp add: fset_of_list_elem)
  show ?case
  proof (cases "c |\<in>| cells s")
    case True
    have 1: "(cells s |-| {|c|}) |\<inter>| fset_of_list cs = cells s |\<inter>| fset_of_list cs"
      using c by auto
    have 2: "cells s |\<inter>| finsert c (fset_of_list cs) = finsert c (cells s |\<inter>| fset_of_list cs)"
      using True by auto
    have 3: "c |\<notin>| cells s |\<inter>| fset_of_list cs" using c by simp
    have 4: "cells s |-| {|c|} |-| fset_of_list cs = cells s |-| finsert c (fset_of_list cs)"
      by auto
    show ?thesis using Cons True
      by (simp add: Sentence_mark_mine_def 1 2 4 fcard_finsert_disjoint[OF 3])
  next
    case False
    have 1: "cells s |\<inter>| finsert c (fset_of_list cs) = cells s |\<inter>| fset_of_list cs"
      using False by auto
    have 4: "cells s |-| finsert c (fset_of_list cs) = cells s |-| fset_of_list cs"
      using False by auto
    show ?thesis using Cons False by (simp add: Sentence_mark_mine_def 1 4)
  qed
qed

lemma fold_mark_mine_unfold:
  "fold mark_mine cs self =
     self\<lparr>mines := fset_of_list cs |\<union>| mines self,
          knowledge := map (fold (\<lambda>c s. snd (Sentence_mark_mine s c)) cs) (knowledge self)\<rparr>"
proof (induction cs arbitrary: self)
  case Nil
  then show ?case by (simp add: map_idI)
next
  case (Cons c cs)
  then show ?case by (simp add: mark_mine_def comp_def)
qed

lemma fold_mark_mine_order:
  assumes "distinct cs" "distinct ds" "set cs = set ds"
  shows "fold mark_mine cs self = fold mark_mine ds self"
proof -
  have "fset_of_list cs = fset_of_list ds"
    using assms(3) by (metis fset_of_list.rep_eq fset_inverse)
  then show ?thesis
    by (simp add: fold_mark_mine_unfold Sentence_mark_mine_all[OF assms(1)]
        Sentence_mark_mine_all[OF assms(2)])
qed

subsection \<open>Soundness for a board\<close>

lemma sound_iff:
  "sound g self \<longleftrightarrow>
     (height self = board_height g \<and> width self = board_width g \<and>
      (\<forall>c. c |\<in>| mines self \<longrightarrow> mine_at g c) \<and>
      (\<forall>c. c |\<in>| safes self \<longrightarrow> \<not> mine_at g c) \<and>
      (\<forall>s \<in> set (knowledge self). count s = int (fcard (ffilter (mine_at g) (cells s)))))"
  unfolding sound_def list_all_iff by (safe; (auto)?) 

lemma sound_init: "sound g (init (board_height g) (board_width g))"
  by (auto simp: sound_def init_def)

lemma fcard_ffilter_remove:
  "fcard (ffilter P (A |-| {|c|})) =
     (if c |\<in>| A \<and> P c then fcard (ffilter P A) - 1 else fcard (ffilter P A))"
proof -
  have eq: "ffilter P (A |-| {|c|}) = ffilter P A |-| {|c|}" by auto
  show ?thesis
  proof (cases "c |\<in>| A \<and> P c")
    case True
    then have "c |\<in>| ffilter P A" by simp
    from fcard_Suc_fminus1[OF this] show ?thesis using True eq by simp
  next
    case False
    then have "ffilter P A |-| {|c|} = ffilter P A" by auto
    then show ?thesis using False eq by auto
  qed
qed

lemma fcard_ffilter_pos: "c |\<in>| A \<Longrightarrow> P c \<Longrightarrow> 0 < fcard (ffilter P A)"
  by (metis fcard_0_eq ffmember_filter fempty_iff gr0I)

lemma sound_mark_mine:
  assumes "sound g self" "mine_at g c"
  shows "sound g (mark_mine c self)"
proof -
  have "count (snd (Sentence_mark_mine s c)) =
          int (fcard (ffilter (mine_at g) (cells (snd (Sentence_mark_mine s c)))))"
    if "count s = int (fcard (ffilter (mine_at g) (cells s)))" for s
    using that assms(2) fcard_ffilter_pos[of c "cells s" "mine_at g"]
    by (auto simp: Sentence_mark_mine_def fcard_ffilter_remove)
  then show ?thesis using assms
    by (auto simp: sound_iff mark_mine_def)
qed

lemma sound_mark_safe:
  assumes "sound g self" "\<not> mine_at g c"
  shows "sound g (mark_safe c self)"
proof -
  have "count (snd (Sentence_mark_safe s c)) =
          int (fcard (ffilter (mine_at g) (cells (snd (Sentence_mark_safe s c)))))"
    if "count s = int (fcard (ffilter (mine_at g) (cells s)))" for s
    using that assms(2) by (auto simp: Sentence_mark_safe_def fcard_ffilter_remove)
  then show ?thesis using assms
    by (auto simp: sound_iff mark_safe_def)
qed

lemma sound_fold_mark_mine:
  "sound g self \<Longrightarrow> \<forall>c \<in> set cs. mine_at g c \<Longrightarrow> sound g (fold mark_mine cs self)"
  by (induction cs arbitrary: self) (simp_all add: sound_mark_mine)

lemma sound_infer:
  assumes snd: "sound g self" and s: "s \<in> set (knowledge self)"
  shows "\<exists>self'. infer self s = Inr self' \<and> sound g self'"
proof (rule infer_cases[OF s])
  assume c0: "count s = 0" and
    eq: "infer self s = Inr (self\<lparr>safes := safes self |\<union>| cells s, knowledge := remove1 s (knowledge self)\<rparr>)"
  from snd s c0 have "ffilter (mine_at g) (cells s) = {||}" by (auto simp: sound_iff)
  then have "\<not> mine_at g c" if "c |\<in>| cells s" for c using that by auto
  with snd have "sound g (self\<lparr>safes := safes self |\<union>| cells s, knowledge := remove1 s (knowledge self)\<rparr>)"
    by (auto simp: sound_iff dest: notin_set_remove1)
  with eq show ?thesis by simp
next
  assume full: "int (fcard (cells s)) = count s" and
    eq: "infer self s = Inr (fold mark_mine (sorted_list_of_fset (cells s |\<union>| mines self))
                                (self\<lparr>knowledge := remove1 s (knowledge self)\<rparr>))"
  from snd s full have "fcard (cells s) \<le> fcard (ffilter (mine_at g) (cells s))"
    by (auto simp: sound_iff)
  moreover have "ffilter (mine_at g) (cells s) |\<subseteq>| cells s" by auto
  ultimately have "ffilter (mine_at g) (cells s) = cells s" by (rule fcard_seteq[rotated])
  then have all: "mine_at g c" if "c |\<in>| cells s" for c using that by (metis ffmember_filter)
  have 1: "sound g (self\<lparr>knowledge := remove1 s (knowledge self)\<rparr>)"
    using snd by (auto simp: sound_iff dest: notin_set_remove1)
  have 2: "\<forall>c \<in> set (sorted_list_of_fset (cells s |\<union>| mines self)). mine_at g c"
    using all snd by (auto simp: sound_iff)
  from sound_fold_mark_mine[OF 1 2] eq show ?thesis by simp
next
  assume "infer self s = Inr self"
  with snd show ?thesis by simp
qed

lemma sound_propagate:
  assumes "sound g self"
  shows "\<exists>self'. propagate i self = Inr self' \<and> sound g self'"
  by (rule propagate_invariant[where P = "sound g", OF assms]) (rule sound_infer)

lemma inner_filter:
  "concat (map (\<lambda>j. if Q i j then [(i, j)] else []) ys) = filter (\<lambda>(i, j). Q i j) (map (Pair i) ys)"
  by (induction ys) simp_all

lemma nested_filter:
  "concat (map (\<lambda>i. concat (map (\<lambda>j. if Q i j then [(i, j)] else []) ys)) xs) =
     filter (\<lambda>(i, j). Q i j) (List.product xs ys)"
  by (induction xs) (simp_all add: inner_filter)

lemma inner_count:
  "fold (\<lambda>j (a::int). if Q i j then a + 1 else a) ys a0 =
     a0 + int (length (filter (\<lambda>(i, j). Q i j) (map (Pair i) ys)))"
  by (induction ys arbitrary: a0) simp_all

lemma nested_count:
  "fold (\<lambda>i a. fold (\<lambda>j (a::int). if Q i j then a + 1 else a) ys a) xs a0 =
     a0 + int (length (filter (\<lambda>(i, j). Q i j) (List.product xs ys)))"
  by (induction xs arbitrary: a0) (simp_all add: inner_count)

lemma distinct_around: "distinct (around cell)"
  by (simp add: around_def py_range_def distinct_product)

lemma current_knowledge_cells_filter:
  "current_knowledge_cells self cell =
     filter (\<lambda>(i, j). (i, j) \<noteq> cell \<and> 0 \<le> i \<and> i < height self \<and> 0 \<le> j \<and> j < width self \<and>
                  (i, j) |\<notin>| py_and (moves_made self) (safes self)) (around cell)"
proof -
  have "current_knowledge_cells self cell =
      concat (map (\<lambda>i. concat (map (\<lambda>j.
         if (i, j) \<noteq> cell \<and> 0 \<le> i \<and> i < height self \<and> 0 \<le> j \<and> j < width self \<and>
                  (i, j) |\<notin>| py_and (moves_made self) (safes self) then [(i, j)] else [])
        (py_range (snd cell - 1) (snd cell + 2)))) (py_range (fst cell - 1) (fst cell + 2)))"
    unfolding current_knowledge_cells_def
    by (intro arg_cong[where f = concat] map_cong refl) auto
  then show ?thesis
    by (simp only: nested_filter around_def)
qed

lemma nearby_mines_filter:
  "nearby_mines g cell = int (length (filter (\<lambda>(i, j). (i, j) \<noteq> cell \<and> mine_at g (i, j)) (around cell)))"
proof -
  have inner: "(if (i, j) = cell then a
         else if 0 \<le> i \<and> i < board_height g \<and> 0 \<le> j \<and> j < board_width g
         then (if board g ! nat i ! nat j then a + 1 else a)
         else a) = (if (i, j) \<noteq> cell \<and> mine_at g (i, j) then a + 1 else a)" for i j and a :: int
    by (auto simp: mine_at_def)
  show ?thesis
    unfolding nearby_mines_def inner by (simp only: nested_count around_def)
qed

lemma fcard_fset_of_list_distinct: "distinct xs \<Longrightarrow> fcard (fset_of_list xs) = length xs"
  by (simp add: fcard.rep_eq fset_of_list.rep_eq distinct_card)

lemma ffilter_fset_of_list: "ffilter P (fset_of_list xs) = fset_of_list (filter P xs)"
  by (auto simp: fset_of_list_elem)

lemma py_and_finsert [simp]: "py_and (finsert c M) S = S"
  by (simp add: py_and_def)

lemma sound_new_sentence:
  assumes "sound g self" "moves_made self \<noteq> {||}"
  shows "count (Sentence (current_knowledge_cells self cell) (nearby_mines g cell)) =
           int (fcard (ffilter (mine_at g)
             (cells (Sentence (current_knowledge_cells self cell) (nearby_mines g cell)))))"
proof -
  have pa: "py_and (moves_made self) (safes self) = safes self"
    using assms(2) by (simp add: py_and_def)
  have dims: "height self = board_height g" "width self = board_width g"
    using assms(1) by (simp_all add: sound_def)
  have safe: "\<not> mine_at g p" if "p |\<in>| safes self" for p
    using assms(1) that unfolding sound_iff by blast
  have inb: "0 \<le> fst p \<and> fst p < height self \<and> 0 \<le> snd p \<and> snd p < width self"
    if "mine_at g p" for p
    using that dims by (simp add: mine_at_def)
  let ?cs = "current_knowledge_cells self cell"
  have eq: "filter (mine_at g) ?cs
          = filter (\<lambda>(i, j). (i, j) \<noteq> cell \<and> mine_at g (i, j)) (around cell)"
    unfolding current_knowledge_cells_filter filter_filter pa
  proof (rule filter_cong[OF refl])
    fix p :: cell
    obtain i j where p: "p = (i, j)" by (cases p)
    show "((case p of (i, j) \<Rightarrow> (i, j) \<noteq> cell \<and> 0 \<le> i \<and> i < height self \<and> 0 \<le> j \<and>
              j < width self \<and> (i, j) |\<notin>| safes self) \<and> mine_at g p) =
          (case p of (i, j) \<Rightarrow> (i, j) \<noteq> cell \<and> mine_at g (i, j))"
      using safe[of p] inb[of p] unfolding p by auto
  qed
  have d: "distinct (filter (mine_at g) ?cs)"
    unfolding current_knowledge_cells_filter by (intro distinct_filter distinct_around)
  have "int (fcard (ffilter (mine_at g) (fset_of_list ?cs))) =
          int (fcard (fset_of_list (filter (mine_at g) ?cs)))"
    by (simp only: ffilter_fset_of_list)
  also have "\<dots> = int (length (filter (mine_at g) ?cs))"
    by (simp only: fcard_fset_of_list_distinct[OF d])
  also have "\<dots> = nearby_mines g cell"
    by (simp only: eq nearby_mines_filter)
  finally show ?thesis by (simp add: Sentence_def)
qed

lemma sound_add_knowledge:
  assumes "sound g self" "\<not> mine_at g cell"
  shows "\<exists>self'. add_knowledge self cell (nearby_mines g cell) = Inr self' \<and> sound g self'"
proof -
  define self1 where "self1 = self\<lparr>moves_made := finsert cell (moves_made self)\<rparr>"
  define self2 where "self2 = (if cell |\<notin>| safes self1 then mark_safe cell self1 else self1)"
  define self3 where "self3 = (if length (current_knowledge_cells self2 cell) \<noteq> 0
       then self2\<lparr>knowledge := knowledge self2 @
               [Sentence (current_knowledge_cells self2 cell) (nearby_mines g cell)]\<rparr>
       else self2)"
  have eq: "add_knowledge self cell (nearby_mines g cell) = propagate 0 self3"
    by (simp add: add_knowledge_def self1_def self2_def self3_def Let_def)
  have 1: "sound g self1" using assms(1) by (simp add: sound_def self1_def)
  have 2: "sound g self2" using 1 assms(2) by (simp add: self2_def sound_mark_safe)
  have m: "moves_made self2 \<noteq> {||}" by (auto simp: self2_def self1_def mark_safe_def)
  have c: "cell |\<in>| safes self2" by (auto simp: self2_def mark_safe_def)
  have 3: "sound g self3"
    using 2 sound_new_sentence[OF 2 m] by (auto simp: self3_def sound_def)
  from sound_propagate[OF 3] show ?thesis unfolding eq .
qed

lemma sound_do_call:
  assumes "sound g self" "agrees g c"
  shows "\<exists>self'. do_call self c = Inr self' \<and> sound g self'"
  using assms by (cases c) (auto simp: sound_add_knowledge sound_mark_mine sound_mark_safe)

lemma sound_run:
  assumes "sound g self" "list_all (agrees g) cs"
  shows "\<exists>self'. run self cs = Inr self' \<and> sound g self'"
  using assms
proof (induction cs arbitrary: self)
  case Nil
  then show ?case by simp
next
  case (Cons c cs)
  then obtain self1 where 1: "do_call self c = Inr self1" "sound g self1"
    using sound_do_call[of g self c] by auto
  from Cons.IH[OF 1(2)] Cons.prems(2) 1(1) show ?case by auto
qed

lemma sound_disjoint: "sound g self \<Longrightarrow> mines self |\<inter>| safes self = {||}"
  by (auto simp: sound_iff)

subsection \<open>The store and the redraw loop\<close>

lemma field_values_alloc:
  assumes "refs_ok self h"
  shows "field_values self (h @ [z]) = field_values self h"
proof -
  have "map (\<lambda>(r, n). \<lparr>cells = (h @ [z]) ! r, count = n\<rparr>) (knowledge_refs self) =
        map (\<lambda>(r, n). \<lparr>cells = h ! r, count = n\<rparr>) (knowledge_refs self)"
    using assms by (intro map_cong refl) (auto simp: refs_ok_def list_all_iff nth_append)
  then show ?thesis using assms by (simp add: field_values_def refs_ok_def nth_append)
qed

lemma pick_least_ok: "pick_ok pick_least"
  unfolding pick_ok_def pick_least_def
proof (intro allI impI)
  fix S :: "cell fset" assume "S \<noteq> {||}"
  then have "sorted_list_of_fset S \<noteq> []"
    by (metis sorted_list_of_fset_simps(2) fset_of_list_simps(1))
  then have "hd (sorted_list_of_fset S) \<in> set (sorted_list_of_fset S)" by (rule hd_in_set)
  then show "hd (sorted_list_of_fset S) |\<in>| S" by simp
qed

lemma all_cells_iff:
  "(i, j) |\<in>| all_cells self \<longleftrightarrow> 0 \<le> i \<and> i < height self \<and> 0 \<le> j \<and> j < width self"
proof -
  have "(i, j) |\<in>| all_cells self \<longleftrightarrow>
          i \<in> set (py_range 0 (height self)) \<and> j \<in> set (py_range 0 (width self))"
    by (auto simp: all_cells_def fset_of_list_elem)
  then show ?thesis by (auto simp: py_range_def)
qed

lemma randrange_in_range:
  "randrange raw n = Inr i \<Longrightarrow> 0 \<le> i \<and> i < n"
  by (auto simp: randrange_def split: if_splits)

lemma redraw_result:
  assumes "redraw rng k self S mv = Some y"
  shows "mv |\<in>| all_cells self \<longrightarrow> (case y of Inl e \<Rightarrow> True | Inr c \<Rightarrow> c |\<in>| all_cells self \<and> c |\<notin>| S)"
proof (rule redraw.raw_induct[where P = "\<lambda>rng k self S mv y.
          mv |\<in>| all_cells self \<longrightarrow> (case y of Inl e \<Rightarrow> True | Inr c \<Rightarrow> c |\<in>| all_cells self \<and> c |\<notin>| S)", OF _ assms])
  fix redraw' :: "(nat \<Rightarrow> nat) \<Rightarrow> nat \<Rightarrow> ai \<Rightarrow> cell fset \<Rightarrow> cell \<Rightarrow> (error + cell) option"
    and rng k self S mv y
  assume IH: "\<And>rng k self S mv y. redraw' rng k self S mv = Some y \<Longrightarrow>
          mv |\<in>| all_cells self \<longrightarrow> (case y of Inl e \<Rightarrow> True | Inr c \<Rightarrow> c |\<in>| all_cells self \<and> c |\<notin>| S)"
    and body: "(if mv |\<in>| S
      then (case randrange (rng k) (height self) of
              Inl e \<Rightarrow> Some (Inl e)
            | Inr i \<Rightarrow>
                (case randrange (rng (k + 1)) (width self) of
                   Inl e \<Rightarrow> Some (Inl e)
                 | Inr j \<Rightarrow> redraw' rng (k + 2) self S (i, j)))
      else Some (Inr mv)) = Some y"
  show "mv |\<in>| all_cells self \<longrightarrow> (case y of Inl e \<Rightarrow> True | Inr c \<Rightarrow> c |\<in>| all_cells self \<and> c |\<notin>| S)"
  proof
    assume mv: "mv |\<in>| all_cells self"
    show "case y of Inl e \<Rightarrow> True | Inr c \<Rightarrow> c |\<in>| all_cells self \<and> c |\<notin>| S"
    proof (cases "mv |\<in>| S")
      case False
      with body mv show ?thesis by auto
    next
      case True
      show ?thesis
      proof (cases "randrange (rng k) (height self)")
        case (Inl e)
        with body True show ?thesis by auto
      next
        case (Inr i)
        note i = this
        show ?thesis
        proof (cases "randrange (rng (k + 1)) (width self)")
          case (Inl e)
          with body True i show ?thesis by auto
        next
          case (Inr j)
          with body True i have "redraw' rng (k + 2) self S (i, j) = Some y" by simp
          moreover have "(i, j) |\<in>| all_cells self"
            using randrange_in_range[OF i] randrange_in_range[OF Inr] by (simp add: all_cells_iff)
          ultimately show ?thesis using IH by blast
        qed
      qed
    qed
  qed
qed

lemma redraw_no_candidates:
  assumes "redraw rng k self S mv = Some y"
  shows "all_cells self |\<subseteq>| S \<and> 0 < height self \<and> 0 < width self \<and> mv |\<in>| S \<longrightarrow> False"
proof (rule redraw.raw_induct[where P = "\<lambda>rng k self S mv y.
          all_cells self |\<subseteq>| S \<and> 0 < height self \<and> 0 < width self \<and> mv |\<in>| S \<longrightarrow> False", OF _ assms])
  fix redraw' :: "(nat \<Rightarrow> nat) \<Rightarrow> nat \<Rightarrow> ai \<Rightarrow> cell fset \<Rightarrow> cell \<Rightarrow> (error + cell) option"
    and rng k self S mv y
  assume IH: "\<And>rng k self S mv y. redraw' rng k self S mv = Some y \<Longrightarrow>
          all_cells self |\<subseteq>| S \<and> 0 < height self \<and> 0 < width self \<and> mv |\<in>| S \<longrightarrow> False"
    and body: "(if mv |\<in>| S
      then (case randrange (rng k) (height self) of
              Inl e \<Rightarrow> Some (Inl e)
            | Inr i \<Rightarrow>
                (case randrange (rng (k + 1)) (width self) of
                   Inl e \<Rightarrow> Some (Inl e)
                 | Inr j \<Rightarrow> redraw' rng (k + 2) self S (i, j)))
      else Some (Inr mv)) = Some y"
  show "all_cells self |\<subseteq>| S \<and> 0 < height self \<and> 0 < width self \<and> mv |\<in>| S \<longrightarrow> False"
  proof
    assume a: "all_cells self |\<subseteq>| S \<and> 0 < height self \<and> 0 < width self \<and> mv |\<in>| S"
    let ?i = "int (rng k) mod height self" and ?j = "int (rng (k + 1)) mod width self"
    from a body have r: "redraw' rng (k + 2) self S (?i, ?j) = Some y"
      by (simp add: randrange_def)
    have "(?i, ?j) |\<in>| all_cells self" using a by (simp add: all_cells_iff)
    with a have "(?i, ?j) |\<in>| S" by auto
    with IH[OF r] a show False by blast
  qed
qed

lemma make_random_move_no_candidates:
  assumes "candidates self = {||}" "0 < height self" "0 < width self"
    "fcard (moves_made self) \<noteq> 56"
  shows "make_random_move rng self = None"
proof -
  let ?S = "moves_made self |\<union>| mines self"
  let ?i = "int (rng 0) mod height self" and ?j = "int (rng 1) mod width self"
  have sub: "all_cells self |\<subseteq>| ?S" using assms(1) by (auto simp: candidates_def)
  have "(?i, ?j) |\<in>| all_cells self" using assms(2,3) by (simp add: all_cells_iff)
  with sub have mem: "(?i, ?j) |\<in>| ?S" by auto
  have "redraw rng 2 self ?S (?i, ?j) = None"
  proof (cases "redraw rng 2 self ?S (?i, ?j)")
    case (Some y)
    from redraw_no_candidates[OF this] sub assms(2,3) mem show ?thesis by blast
  qed simp
  then show ?thesis using assms
    by (simp add: make_random_move_def randrange_def)
qed

lemma make_random_move_result:
  assumes "make_random_move rng self = Some (Inr (Some c))"
  shows "c |\<in>| candidates self"
proof -
  from assms obtain i j where i: "randrange (rng 0) (height self) = Inr i"
    and j: "randrange (rng 1) (width self) = Inr j"
    and r: "redraw rng 2 self (moves_made self |\<union>| mines self) (i, j) = Some (Inr c)"
    by (auto simp: make_random_move_def Let_def split: if_splits sum.splits option.splits)
  have "(i, j) |\<in>| all_cells self"
    using randrange_in_range[OF i] randrange_in_range[OF j] by (simp add: all_cells_iff)
  with redraw_result[OF r] show ?thesis by (auto simp: candidates_def)
qed

subsection \<open>Runs of the loop that remove at most one sentence\<close>

lemma fold_mark_mine_length:
  "length (knowledge (fold mark_mine cs st)) = length (knowledge st)"
  by (simp add: fold_mark_mine_unfold)

lemma infer_trichotomy:
  assumes "s \<in> set (knowledge self)"
  obtains (safe) "fst (known_safes s) \<noteq> {||}" "cells s \<noteq> {||}"
      "infer self s = Inr (self\<lparr>safes := safes self |\<union>| cells s, knowledge := remove1 s (knowledge self)\<rparr>)"
  | (mine) "fst (known_mines s) \<noteq> {||}" "cells s \<noteq> {||}"
      "infer self s = Inr (fold mark_mine (sorted_list_of_fset (cells s |\<union>| mines self))
                                (self\<lparr>knowledge := remove1 s (knowledge self)\<rparr>))"
  | (none) "fst (known_safes s) = {||}" "fst (known_mines s) = {||}" "infer self s = Inr self"
proof (cases "fst (known_safes s) \<noteq> {||}")
  case True
  then show ?thesis using safe infer_safe_case[OF True assms]
    by (auto simp: known_safes_eq split: if_splits)
next
  case False
  show ?thesis
  proof (cases "fst (known_mines s) \<noteq> {||}")
    case True
    then show ?thesis using mine infer_mine_case[OF True assms]
      by (auto simp: known_mines_eq split: if_splits)
  next
    case F2: False
    then show ?thesis using none infer_none_case False by blast
  qed
qed

lemma infer_length:
  assumes "s \<in> set (knowledge st)" "infer st s = Inr st'"
  shows "length (knowledge st') \<le> length (knowledge st)"
  by (rule infer_trichotomy[OF assms(1)])
     (insert assms(2), auto simp: fold_mark_mine_length length_remove1)

lemma infer_removes:
  assumes "s \<in> set (knowledge st)" "infer st s = Inr st'"
    "fst (known_safes s) \<noteq> {||} \<or> fst (known_mines s) \<noteq> {||}"
  shows "Suc (length (knowledge st')) = length (knowledge st)"
proof -
  have pos: "0 < length (knowledge st)" using assms(1) by (cases "knowledge st") auto
  show ?thesis
    by (rule infer_trichotomy[OF assms(1)])
       (insert assms pos, auto simp: fold_mark_mine_length length_remove1)
qed

lemma propagate_length:
  assumes "propagate i st = Inr st'"
  shows "length (knowledge st') \<le> length (knowledge st)"
proof -
  have "\<exists>st''. propagate i st = Inr st'' \<and> length (knowledge st'') \<le> length (knowledge st)"
  proof (rule propagate_invariant)
    show "length (knowledge st) \<le> length (knowledge st)" by simp
  next
    fix st1 :: ai and s :: sentence
    assume le: "length (knowledge st1) \<le> length (knowledge st)" and s: "s \<in> set (knowledge st1)"
    from infer_grows[OF s] obtain st2 where st2: "infer st1 s = Inr st2" by blast
    from infer_length[OF s st2] le st2
    show "\<exists>st'. infer st1 s = Inr st' \<and> length (knowledge st') \<le> length (knowledge st)"
      by auto
  qed
  with assms show ?thesis by simp
qed

text \<open>A run of the loop that removes nothing changes nothing, and found every sentence from
  its start index on without a deduction.\<close>

lemma propagate_same_length:
  assumes "propagate i st = Inr st'" "length (knowledge st') = length (knowledge st)"
  shows "st' = st \<and> (\<forall>j. i \<le> j \<and> j < length (knowledge st) \<longrightarrow>
            fst (known_safes (knowledge st ! j)) = {||} \<and> fst (known_mines (knowledge st ! j)) = {||})"
  using assms
proof (induction i st rule: propagate.induct)
  case (1 i st)
  show ?case
  proof (cases "i < length (knowledge st)")
    case False
    with "1.prems" show ?thesis by (subst (asm) propagate.simps) auto
  next
    case True
    let ?s = "knowledge st ! i"
    have mem: "?s \<in> set (knowledge st)" using True by simp
    from infer_grows[OF mem] obtain st1 where st1: "infer st ?s = Inr st1" by blast
    have next_: "propagate (i + 1) st1 = Inr st'"
      using "1.prems"(1) True st1 by (subst (asm) propagate.simps) simp
    have idle_s: "fst (known_safes ?s) = {||} \<and> fst (known_mines ?s) = {||}"
    proof (rule ccontr)
      assume "\<not> ?thesis"
      then have "Suc (length (knowledge st1)) = length (knowledge st)"
        using infer_removes[OF mem st1] by blast
      with propagate_length[OF next_] "1.prems"(2) show False by simp
    qed
    then have "infer st ?s = Inr st" by (simp add: infer_none_case)
    with st1 have eq: "st1 = st" by simp
    from "1.IH"[OF True st1 next_] "1.prems"(2) eq
    have IH: "st' = st \<and> (\<forall>j. i + 1 \<le> j \<and> j < length (knowledge st) \<longrightarrow>
            fst (known_safes (knowledge st ! j)) = {||} \<and> fst (known_mines (knowledge st ! j)) = {||})"
      by simp
    show ?thesis
    proof (intro conjI allI impI)
      show "st' = st" using IH by simp
    next
      fix j assume j: "i \<le> j \<and> j < length (knowledge st)"
      show "fst (known_safes (knowledge st ! j)) = {||}"
        using IH idle_s j by (cases "j = i") auto
      show "fst (known_mines (knowledge st ! j)) = {||}"
        using IH idle_s j by (cases "j = i") auto
    qed
  qed
qed

text \<open>A run of the loop that shortens the list by one made its one removal at the first
  sentence with a deduction, and its result is the result of that round.\<close>

lemma propagate_one_removal:
  assumes "propagate i st = Inr st'" "Suc (length (knowledge st')) = length (knowledge st)"
  shows "\<exists>i0. i \<le> i0 \<and> i0 < length (knowledge st) \<and>
           (\<forall>j. i \<le> j \<and> j < i0 \<longrightarrow>
              fst (known_safes (knowledge st ! j)) = {||} \<and> fst (known_mines (knowledge st ! j)) = {||}) \<and>
           (fst (known_safes (knowledge st ! i0)) \<noteq> {||} \<or> fst (known_mines (knowledge st ! i0)) \<noteq> {||}) \<and>
           infer st (knowledge st ! i0) = Inr st'"
  using assms
proof (induction i st rule: propagate.induct)
  case (1 i st)
  show ?case
  proof (cases "i < length (knowledge st)")
    case False
    with "1.prems" show ?thesis by (subst (asm) propagate.simps) auto
  next
    case True
    let ?s = "knowledge st ! i"
    have mem: "?s \<in> set (knowledge st)" using True by simp
    from infer_grows[OF mem] obtain st1 where st1: "infer st ?s = Inr st1" by blast
    have next_: "propagate (i + 1) st1 = Inr st'"
      using "1.prems"(1) True st1 by (subst (asm) propagate.simps) simp
    show ?thesis
    proof (cases "fst (known_safes ?s) = {||} \<and> fst (known_mines ?s) = {||}")
      case idle_s: True
      then have "infer st ?s = Inr st" by (simp add: infer_none_case)
      with st1 have eq: "st1 = st" by simp
      from "1.IH"[OF True st1 next_] "1.prems"(2) eq obtain i0 where
        i0: "i + 1 \<le> i0" "i0 < length (knowledge st)"
          "\<forall>j. i + 1 \<le> j \<and> j < i0 \<longrightarrow>
              fst (known_safes (knowledge st ! j)) = {||} \<and> fst (known_mines (knowledge st ! j)) = {||}"
          "fst (known_safes (knowledge st ! i0)) \<noteq> {||} \<or> fst (known_mines (knowledge st ! i0)) \<noteq> {||}"
          "infer st (knowledge st ! i0) = Inr st'"
        by auto
      have "\<forall>j. i \<le> j \<and> j < i0 \<longrightarrow>
              fst (known_safes (knowledge st ! j)) = {||} \<and> fst (known_mines (knowledge st ! j)) = {||}"
      proof (intro allI impI)
        fix j assume "i \<le> j \<and> j < i0"
        then show "fst (known_safes (knowledge st ! j)) = {||} \<and> fst (known_mines (knowledge st ! j)) = {||}"
          using i0(3) idle_s by (cases "j = i") auto
      qed
      with i0 show ?thesis by (intro exI[of _ i0]) auto
    next
      case False
      then have res: "fst (known_safes ?s) \<noteq> {||} \<or> fst (known_mines ?s) \<noteq> {||}" by blast
      from infer_removes[OF mem st1 res] "1.prems"(2)
      have "length (knowledge st') = length (knowledge st1)" by simp
      from propagate_same_length[OF next_ this] have "st' = st1" by simp
      with st1 res True show ?thesis by (intro exI[of _ i]) auto
    qed
  qed
qed

text \<open>The loop passes over sentences without a deduction.\<close>

lemma propagate_skip_idle:
  assumes "\<forall>j. i \<le> j \<and> j < i0 \<longrightarrow>
              fst (known_safes (knowledge st ! j)) = {||} \<and> fst (known_mines (knowledge st ! j)) = {||}"
    "i \<le> i0" "i0 \<le> length (knowledge st)"
  shows "propagate i st = propagate i0 st"
  using assms
proof (induction "i0 - i" arbitrary: i)
  case 0
  then show ?case by simp
next
  case (Suc d)
  then have lt: "i < i0" by simp
  then have "infer st (knowledge st ! i) = Inr st"
    using Suc.prems(1) by (simp add: infer_none_case)
  then have "propagate i st = propagate (i + 1) st"
    using lt Suc.prems(3) by (subst propagate.simps) simp
  also have "\<dots> = propagate i0 st"
    using Suc.hyps(2) Suc.prems lt by (intro Suc.hyps(1)) auto
  finally show ?case .
qed

lemma snoc_eq_Cons: "xs @ [s] = r # xs \<Longrightarrow> s = r"
  by (induction xs arbitrary: r) auto

lemma remove1_snoc_same:
  "remove1 r K @ [s] = K \<Longrightarrow> r \<in> set K \<Longrightarrow> s = r"
proof (induction K)
  case Nil
  then show ?case by simp
next
  case (Cons k K)
  show ?case
  proof (cases "k = r")
    case True
    with Cons.prems(1) have "K @ [s] = r # K" by simp
    then show ?thesis by (rule snoc_eq_Cons)
  next
    case False
    with Cons show ?thesis by auto
  qed
qed

lemma remove1_of_snoc:
  assumes "remove1 r (K @ [s]) = K" "r \<in> set (K @ [s])"
  shows "s = r"
proof (cases "r \<in> set K")
  case True
  with assms(1) have "remove1 r K @ [s] = K" by (simp add: remove1_append)
  from remove1_snoc_same[OF this True] show ?thesis .
next
  case False
  with assms(2) show ?thesis by simp
qed

lemma current_knowledge_cells_outside:
  "c \<in> set (current_knowledge_cells self cell) \<Longrightarrow>
     c |\<notin>| py_and (moves_made self) (safes self)"
  by (auto simp: current_knowledge_cells_filter)

lemma distinct_current_knowledge_cells: "distinct (current_knowledge_cells self cell)"
  unfolding current_knowledge_cells_filter by (intro distinct_filter distinct_around)

lemma purge_same:
  "s\<lparr>cells := cells s |-| M, count := count s - int (fcard (cells s |\<inter>| M))\<rparr> = s
     \<longleftrightarrow> cells s |\<inter>| M = {||}"
proof
  assume "s\<lparr>cells := cells s |-| M, count := count s - int (fcard (cells s |\<inter>| M))\<rparr> = s"
  then have "cells (s\<lparr>cells := cells s |-| M, count := count s - int (fcard (cells s |\<inter>| M))\<rparr>) = cells s"
    by simp
  then have "cells s |-| M = cells s" by simp
  then show "cells s |\<inter>| M = {||}" by auto
next
  assume e: "cells s |\<inter>| M = {||}"
  then have "cells s |-| M = cells s" by auto
  with e show "s\<lparr>cells := cells s |-| M, count := count s - int (fcard (cells s |\<inter>| M))\<rparr> = s"
    by simp
qed

lemma mark_all_mines:
  "fold mark_mine (sorted_list_of_fset M) st =
     st\<lparr>mines := M |\<union>| mines st,
        knowledge := map (\<lambda>s. s\<lparr>cells := cells s |-| M,
                                count := count s - int (fcard (cells s |\<inter>| M))\<rparr>) (knowledge st)\<rparr>"
proof -
  have d: "distinct (sorted_list_of_fset M)"
    by (simp add: sorted_list_of_fset.rep_eq)
  show ?thesis
    by (simp add: fold_mark_mine_unfold Sentence_mark_mine_all[OF d])
qed

subsection \<open>When a call on a probed cell changes nothing\<close>

lemma add_knowledge_probed:
  assumes "cell |\<in>| moves_made self" "cell |\<in>| safes self"
  shows "add_knowledge self cell n =
           propagate 0 (if current_knowledge_cells self cell \<noteq> []
                        then self\<lparr>knowledge := knowledge self @
                                      [Sentence (current_knowledge_cells self cell) n]\<rparr>
                        else self)"
proof -
  have "self\<lparr>moves_made := finsert cell (moves_made self)\<rparr> = self"
    using assms(1) by (simp add: finsert_absorb)
  then show ?thesis using assms(2) by (simp add: add_knowledge_def Let_def)
qed

lemma replay_of_known_mines:
  assumes probed: "cell |\<in>| moves_made self" "cell |\<in>| safes self"
    and idle: "idle self"
    and cs: "current_knowledge_cells self cell \<noteq> []"
    and n: "int (length (current_knowledge_cells self cell)) = n"
    and sub: "fset_of_list (current_knowledge_cells self cell) |\<subseteq>| mines self"
    and clean: "list_all (\<lambda>s. cells s |\<inter>| mines self = {||}) (knowledge self)"
  shows "add_knowledge self cell n = Inr self"
proof -
  let ?cs = "current_knowledge_cells self cell"
  let ?S = "Sentence ?cs n"
  let ?K = "knowledge self"
  let ?st = "self\<lparr>knowledge := ?K @ [?S]\<rparr>"
  have card: "int (fcard (cells ?S)) = count ?S"
    using n by (simp add: Sentence_def fcard_fset_of_list_distinct distinct_current_knowledge_cells)
  have ne: "cells ?S \<noteq> {||}" using cs by (cases ?cs) (auto simp: Sentence_def)
  have km: "fst (known_mines ?S) \<noteq> {||}" using card ne by (simp add: known_mines_eq)
  have S_new: "?S \<notin> set ?K"
  proof
    assume "?S \<in> set ?K"
    with idle have "fst (known_mines ?S) = {||}" by (auto simp: idle_def list_all_iff)
    with km show False by simp
  qed
  have pre: "\<forall>j. 0 \<le> j \<and> j < length ?K \<longrightarrow>
      fst (known_safes (knowledge ?st ! j)) = {||} \<and> fst (known_mines (knowledge ?st ! j)) = {||}"
    using idle by (auto simp: idle_def list_all_iff nth_append)
  have "propagate 0 ?st = propagate (length ?K) ?st"
    by (rule propagate_skip_idle[OF pre]) simp_all
  also have "\<dots> = (case infer ?st ?S of Inl e \<Rightarrow> Inl e
                      | Inr st' \<Rightarrow> propagate (length ?K + 1) st')"
    by (subst propagate.simps) simp
  also have "infer ?st ?S =
      Inr (fold mark_mine (sorted_list_of_fset (cells ?S |\<union>| mines ?st))
             (?st\<lparr>knowledge := remove1 ?S (knowledge ?st)\<rparr>))"
    by (rule infer_mine_case[OF km]) simp
  also have "remove1 ?S (knowledge ?st) = ?K"
    using S_new by (simp add: remove1_append)
  also have "cells ?S |\<union>| mines ?st = mines self"
    using sub by (auto simp: Sentence_def)
  also have "fold mark_mine (sorted_list_of_fset (mines self)) (?st\<lparr>knowledge := ?K\<rparr>) = self"
  proof -
    have "k\<lparr>cells := cells k |-| mines self,
             count := count k - int (fcard (cells k |\<inter>| mines self))\<rparr> = k"
      if "k \<in> set ?K" for k
      using that clean by (intro purge_same[THEN iffD2]) (simp add: list_all_iff)
    then have "map (\<lambda>s. s\<lparr>cells := cells s |-| mines self,
                        count := count s - int (fcard (cells s |\<inter>| mines self))\<rparr>) ?K = ?K"
      by (rule map_idI)
    then show ?thesis by (simp add: mark_all_mines)
  qed
  also have "(case Inr self of Inl e \<Rightarrow> Inl e | Inr st' \<Rightarrow> propagate (length ?K + 1) st') = Inr self"
    by (subst propagate.simps) simp
  finally have "propagate 0 ?st = Inr self" .
  then show ?thesis using cs by (simp add: add_knowledge_probed[OF probed])
qed

lemma unchanged_only_if:
  assumes eq: "add_knowledge self cell n = Inr self"
  shows "cell |\<in>| moves_made self \<and> leaves_unchanged self cell n"
proof -
  from add_knowledge_grows[of self cell n] eq
  have m: "moves_made self = finsert cell (moves_made self)"
    and s: "finsert cell (safes self) |\<subseteq>| safes self" by auto
  have probed: "cell |\<in>| moves_made self" "cell |\<in>| safes self"
    using m s by auto
  let ?cs = "current_knowledge_cells self cell"
  let ?S = "Sentence ?cs n"
  let ?K = "knowledge self"
  let ?st = "self\<lparr>knowledge := ?K @ [?S]\<rparr>"
  have pa: "py_and (moves_made self) (safes self) = safes self"
    using probed(1) by (auto simp: py_and_def)
  show ?thesis
  proof (cases "?cs = []")
    case True
    then have "propagate 0 self = Inr self"
      using eq by (simp add: add_knowledge_probed[OF probed])
    from propagate_same_length[OF this] have "idle self"
      by (auto simp: idle_def list_all_length)
    with probed True show ?thesis by (simp add: leaves_unchanged_def)
  next
    case False
    then have run: "propagate 0 ?st = Inr self"
      using eq by (simp add: add_knowledge_probed[OF probed])
    have len: "Suc (length (knowledge self)) = length (knowledge ?st)" by simp
    from propagate_one_removal[OF run len] obtain i0 where
      i0: "i0 < length (knowledge ?st)"
      and pre: "\<forall>j. j < i0 \<longrightarrow> fst (known_safes (knowledge ?st ! j)) = {||} \<and>
                                 fst (known_mines (knowledge ?st ! j)) = {||}"
      and inf: "infer ?st (knowledge ?st ! i0) = Inr self"
      and res: "fst (known_safes (knowledge ?st ! i0)) \<noteq> {||} \<or>
                fst (known_mines (knowledge ?st ! i0)) \<noteq> {||}"
      by auto
    define R where "R = knowledge ?st ! i0"
    have Rmem: "R \<in> set (knowledge ?st)" unfolding R_def using i0 by (rule nth_mem)
    have Rmem': "R \<in> set (?K @ [?S])" using Rmem by simp
    have cellsS: "cells ?S = fset_of_list ?cs" by (simp add: Sentence_def)
    have Sne: "cells ?S \<noteq> {||}" using False by (cases ?cs) (auto simp: Sentence_def)
    have Sout: "cells ?S |\<inter>| safes self = {||}"
      using current_knowledge_cells_outside[of _ self cell] pa
      by (auto simp: cellsS fset_of_list_elem)
    show ?thesis
    proof (rule infer_trichotomy[OF Rmem])
      assume "fst (known_safes R) = {||}" "fst (known_mines R) = {||}"
      with res show ?thesis by (simp add: R_def)
    next
      assume ne: "cells R \<noteq> {||}"
        and "infer ?st R = Inr (?st\<lparr>safes := safes ?st |\<union>| cells R,
                                      knowledge := remove1 R (knowledge ?st)\<rparr>)"
      with inf have self_eq: "self = ?st\<lparr>safes := safes ?st |\<union>| cells R,
                                        knowledge := remove1 R (knowledge ?st)\<rparr>"
        by (simp add: R_def)
      have "safes self = safes (?st\<lparr>safes := safes ?st |\<union>| cells R,
                                        knowledge := remove1 R (knowledge ?st)\<rparr>)"
        using self_eq by simp
      then have sub: "cells R |\<subseteq>| safes self" by auto
      have "knowledge self = knowledge (?st\<lparr>safes := safes ?st |\<union>| cells R,
                                        knowledge := remove1 R (knowledge ?st)\<rparr>)"
        using self_eq by simp
      then have "remove1 R (?K @ [?S]) = ?K" by simp
      from remove1_of_snoc[OF this Rmem'] have "?S = R" .
      with sub Sout Sne have False by auto
      then show ?thesis ..
    next
      assume km: "fst (known_mines R) \<noteq> {||}" and ne: "cells R \<noteq> {||}"
        and "infer ?st R = Inr (fold mark_mine (sorted_list_of_fset (cells R |\<union>| mines ?st))
                                (?st\<lparr>knowledge := remove1 R (knowledge ?st)\<rparr>))"
      with inf have self_eq: "self = fold mark_mine (sorted_list_of_fset (cells R |\<union>| mines ?st))
                                (?st\<lparr>knowledge := remove1 R (knowledge ?st)\<rparr>)"
        by (simp add: R_def)
      let ?M = "cells R |\<union>| mines self"
      let ?purge = "\<lambda>s. s\<lparr>cells := cells s |-| ?M,
                            count := count s - int (fcard (cells s |\<inter>| ?M))\<rparr>"
      have "mines self = mines (fold mark_mine (sorted_list_of_fset (cells R |\<union>| mines ?st))
                                (?st\<lparr>knowledge := remove1 R (knowledge ?st)\<rparr>))"
        using self_eq by simp
      then have "mines self = ?M |\<union>| mines self" by (simp add: mark_all_mines)
      then have Rsub: "cells R |\<subseteq>| mines self" by auto
      then have M: "?M = mines self" by auto
      have "knowledge self = knowledge (fold mark_mine (sorted_list_of_fset (cells R |\<union>| mines ?st))
                                (?st\<lparr>knowledge := remove1 R (knowledge ?st)\<rparr>))"
        using self_eq by simp
      then have K: "?K = map ?purge (remove1 R (?K @ [?S]))" by (simp add: mark_all_mines)
      have purged: "cells k |\<inter>| ?M = {||}" if "k \<in> set ?K" for k
      proof -
        from that K obtain s where "k = ?purge s" by (metis (no_types, lifting) imageE set_map)
        then show ?thesis by auto
      qed
      have RnotK: "R \<notin> set ?K"
      proof
        assume "R \<in> set ?K"
        from purged[OF this] ne show False by auto
      qed
      with Rmem' have RS: "R = ?S" by simp
      have "i0 = length ?K"
      proof (rule ccontr)
        assume "i0 \<noteq> length ?K"
        with i0 have "i0 < length ?K" by simp
        then have "R \<in> set ?K" by (simp add: R_def nth_append)
        with RnotK show False ..
      qed
      with pre have "idle self"
        by (auto simp: idle_def list_all_length nth_append)
      moreover have "int (length ?cs) = n"
        using km unfolding RS
        by (simp add: known_mines_eq Sentence_def fcard_fset_of_list_distinct
              distinct_current_knowledge_cells split: if_splits)
      moreover have "fset_of_list ?cs |\<subseteq>| mines self"
        using Rsub unfolding RS by (simp add: Sentence_def)
      moreover have "list_all (\<lambda>s. cells s |\<inter>| mines self = {||}) ?K"
        using purged M by (simp add: list_all_iff)
      ultimately show ?thesis using probed by (simp add: leaves_unchanged_def)
    qed
  qed
qed

lemma unchanged_iff:
  "add_knowledge self cell n = Inr self \<longleftrightarrow>
     cell |\<in>| moves_made self \<and> leaves_unchanged self cell n"
proof
  assume "add_knowledge self cell n = Inr self"
  then show "cell |\<in>| moves_made self \<and> leaves_unchanged self cell n"
    by (rule unchanged_only_if)
next
  assume a: "cell |\<in>| moves_made self \<and> leaves_unchanged self cell n"
  show "add_knowledge self cell n = Inr self"
  proof (cases "current_knowledge_cells self cell = []")
    case True
    with a show ?thesis by (intro add_knowledge_noop) (auto simp: leaves_unchanged_def)
  next
    case False
    with a show ?thesis
      by (intro replay_of_known_mines) (auto simp: leaves_unchanged_def Let_def)
  qed
qed

section \<open>The claims\<close>

subsection \<open>C1: known mines and known safe cells are disjoint\<close>

text \<open>
  Claim C1, as amended.  Take a \<open>Minesweeper\<close> board and a fresh \<open>MinesweeperAI\<close> of the
  board's dimensions, and any finite sequence of \<open>add_knowledge\<close>, \<open>mark_mine\<close> and
  \<open>mark_safe\<close> calls that agree with the board: every \<open>add_knowledge(cell, count)\<close> is
  for a cell that is no mine, with the count \<open>nearby_mines(cell)\<close>; \<open>mark_mine\<close> is called
  on mines only and \<open>mark_safe\<close> on other cells only.  Then every call returns without an
  exception, and in the state reached \<open>self.mines\<close> and \<open>self.safes\<close> are disjoint.
\<close>

theorem mines_safes_disjoint:
  assumes "board_ok g" "list_all (agrees g) calls"
  shows "\<exists>self'. run (init (board_height g) (board_width g)) calls = Inr self' \<and>
           mines self' |\<inter>| safes self' = {||}"
  using sound_run[OF sound_init assms(2)] sound_disjoint by blast

text \<open>The theorem on a board of two rows and three columns with mines at \<open>(1, 0)\<close> and
  \<open>(1, 1)\<close>, and four calls that agree with it.\<close>

theorem mines_safes_disjoint_witness:
  "board_ok \<lparr>board_height = 2, board_width = 3,
              board = [[False, False, False], [True, True, False]]\<rparr> \<and>
   list_all (agrees \<lparr>board_height = 2, board_width = 3,
                      board = [[False, False, False], [True, True, False]]\<rparr>)
     [AddKnowledge (0, 0) 2, AddKnowledge (0, 1) 2, MarkMine (1, 0), MarkSafe (0, 2)] \<and>
   (\<exists>self'. run (init 2 3)
        [AddKnowledge (0, 0) 2, AddKnowledge (0, 1) 2, MarkMine (1, 0), MarkSafe (0, 2)] = Inr self' \<and>
      mines self' |\<inter>| safes self' = {||})"
proof -
  let ?g = "\<lparr>board_height = 2, board_width = 3,
              board = [[False, False, False], [True, True, False]]\<rparr>"
  let ?cs = "[AddKnowledge (0, 0) 2, AddKnowledge (0, 1) 2, MarkMine (1, 0), MarkSafe (0, 2)]"
  have b: "board_ok ?g" by code_simp
  have a: "list_all (agrees ?g) ?cs" by code_simp
  from mines_safes_disjoint[OF b a] b a show ?thesis by simp
qed

text \<open>
  Without the agreement the two sets overlap: \<open>mark_mine\<close> and \<open>mark_safe\<close> on the same
  cell put it in both, and so do two \<open>add_knowledge\<close> calls on one cell with the counts 3
  and 0, the second of which takes the three known mines for safe cells.
\<close>

theorem mark_mine_mark_safe_overlap:
  "run (init 8 8) [MarkMine (0, 0), MarkSafe (0, 0)] =
     Inr \<lparr>height = 8, width = 8, moves_made = {||}, mines = {|(0, 0)|}, safes = {|(0, 0)|},
          knowledge = []\<rparr> \<and>
   mines \<lparr>height = 8, width = 8, moves_made = {||}, mines = {|(0, 0)|}, safes = {|(0, 0)|},
          knowledge = []\<rparr> |\<inter>|
   safes \<lparr>height = 8, width = 8, moves_made = {||}, mines = {|(0, 0)|}, safes = {|(0, 0)|},
          knowledge = []\<rparr> = {|(0, 0)|} \<and>
   run (init 8 8) [AddKnowledge (0, 0) 3, AddKnowledge (0, 0) 0] =
     Inr \<lparr>height = 8, width = 8, moves_made = {|(0, 0)|},
          mines = {|(0, 1), (1, 0), (1, 1)|}, safes = {|(0, 0), (0, 1), (1, 0), (1, 1)|},
          knowledge = []\<rparr>"
  by code_simp

subsection \<open>C2: a fixpoint on return\<close>

text \<open>
  Claim C2 asks that on return from \<open>add_knowledge\<close> no sentence of the knowledge base
  still yields a safe cell or a mine that is not recorded.  On a board of two rows and
  three columns with mines at \<open>(1, 0)\<close> and \<open>(1, 1)\<close>, the probes of \<open>(0, 0)\<close> and
  \<open>(0, 1)\<close>, both with the count 2 the board gives, end in a state whose only sentence
  is \<open>{(0, 2), (1, 2)} = 0\<close>: its \<open>known_safes()\<close> is the whole cell set, and neither cell
  is in \<open>self.safes\<close>.  The loop removed the first sentence of the list while iterating
  over it, and the iterator then skipped the sentence that moved into its place.
\<close>

theorem add_knowledge_stops_short:
  "list_all (agrees \<lparr>board_height = 2, board_width = 3,
                      board = [[False, False, False], [True, True, False]]\<rparr>)
     [AddKnowledge (0, 0) 2, AddKnowledge (0, 1) 2] \<and>
   run (init 2 3) [AddKnowledge (0, 0) 2, AddKnowledge (0, 1) 2] =
     Inr \<lparr>height = 2, width = 3, moves_made = {|(0, 0), (0, 1)|}, mines = {|(1, 0), (1, 1)|},
          safes = {|(0, 0), (0, 1)|},
          knowledge = [\<lparr>cells = {|(0, 2), (1, 2)|}, count = 0\<rparr>]\<rparr> \<and>
   fst (known_safes \<lparr>cells = {|(0, 2), (1, 2)|}, count = 0\<rparr>) = {|(0, 2), (1, 2)|} \<and>
   \<not> settled \<lparr>height = 2, width = 3, moves_made = {|(0, 0), (0, 1)|},
          mines = {|(1, 0), (1, 1)|}, safes = {|(0, 0), (0, 1)|},
          knowledge = [\<lparr>cells = {|(0, 2), (1, 2)|}, count = 0\<rparr>]\<rparr>"
  by code_simp

subsection \<open>C3: subset inference\<close>

text \<open>
  Claim C3 asks that from \<open>{c1, c2} = 1\<close> and \<open>{c1, c2, c3} = 2\<close> the sentence
  \<open>{c3} = 1\<close> is derived and \<open>c3\<close> recorded as a mine.  On a board of two rows and four
  columns with mines at \<open>(0, 2)\<close> and \<open>(1, 3)\<close>, the probes of \<open>(0, 0)\<close>, \<open>(0, 1)\<close> and
  \<open>(0, 3)\<close> with the board's counts leave exactly the sentences \<open>{(0, 2), (1, 2)} = 1\<close>
  and \<open>{(0, 2), (1, 2), (1, 3)} = 2\<close> in the knowledge base, no third sentence, and an
  empty \<open>self.mines\<close>: \<open>(1, 3)\<close> is not recorded as a mine.
\<close>

theorem no_subset_inference:
  "list_all (agrees \<lparr>board_height = 2, board_width = 4,
                      board = [[False, False, True, False], [False, False, False, True]]\<rparr>)
     [AddKnowledge (0, 0) 0, AddKnowledge (0, 1) 1, AddKnowledge (0, 3) 2] \<and>
   run (init 2 4) [AddKnowledge (0, 0) 0, AddKnowledge (0, 1) 1, AddKnowledge (0, 3) 2] =
     Inr \<lparr>height = 2, width = 4, moves_made = {|(0, 0), (0, 1), (0, 3)|}, mines = {||},
          safes = {|(0, 0), (0, 1), (1, 0), (1, 1), (0, 3)|},
          knowledge = [\<lparr>cells = {|(0, 2), (1, 2)|}, count = 1\<rparr>,
                       \<lparr>cells = {|(0, 2), (1, 2), (1, 3)|}, count = 2\<rparr>]\<rparr>"
  by code_simp

subsection \<open>C4: a second call for the same cell\<close>

text \<open>
  Claim C4, as amended.  \<open>add_knowledge(cell, n)\<close> for a cell that is already in
  \<open>self.moves_made\<close>, a second call with the same count included, returns without an
  exception and leaves \<open>self.moves_made\<close> as it was; \<open>self.mines\<close> and \<open>self.safes\<close>
  keep all their members.  The state after the call is the state before it exactly when
  the cell is in \<open>self.safes\<close>, no sentence of the knowledge base has a non-empty
  \<open>known_safes()\<close> or \<open>known_mines()\<close>, and either every neighbour of the cell on the
  board is in \<open>self.safes\<close>, or the neighbours outside \<open>self.safes\<close> number \<open>n\<close>, are
  all in \<open>self.mines\<close> already, and no sentence of the knowledge base mentions a cell of
  \<open>self.mines\<close>.  In every other case the call changes the state.
\<close>

theorem add_knowledge_again:
  assumes "cell |\<in>| moves_made self"
  shows "\<exists>self'. add_knowledge self cell n = Inr self' \<and> moves_made self' = moves_made self \<and>
           mines self |\<subseteq>| mines self' \<and> safes self |\<subseteq>| safes self' \<and>
           (self' = self \<longleftrightarrow> leaves_unchanged self cell n)"
proof -
  from add_knowledge_grows[of self cell n] obtain st' where
    1: "add_knowledge self cell n = Inr st'" "moves_made st' = finsert cell (moves_made self)"
       "mines self |\<subseteq>| mines st'" "finsert cell (safes self) |\<subseteq>| safes st'" by blast
  have "moves_made st' = moves_made self" using 1(2) assms by (simp add: finsert_absorb)
  moreover have "safes self |\<subseteq>| safes st'" using 1(4) by auto
  moreover have "st' = self \<longleftrightarrow> leaves_unchanged self cell n"
    using unchanged_iff[of self cell n] 1(1) assms by auto
  ultimately show ?thesis using 1 by auto
qed

text \<open>The theorem at three states of the board of eight rows and columns, each with
  \<open>(0, 0)\<close> probed: after \<open>add_knowledge((0, 0), 0)\<close> the same call changes nothing, all
  neighbours being safe; after \<open>add_knowledge((0, 0), 3)\<close> the same call changes nothing,
  the three neighbours being the known mines; after \<open>add_knowledge((0, 0), 1)\<close> the
  condition fails and the same call changes the state.\<close>

theorem add_knowledge_again_witness:
  "(0, 0) |\<in>| moves_made \<lparr>height = 8, width = 8, moves_made = {|(0, 0)|}, mines = {||},
                             safes = {|(0, 0), (0, 1), (1, 0), (1, 1)|}, knowledge = []\<rparr> \<and>
   add_knowledge \<lparr>height = 8, width = 8, moves_made = {|(0, 0)|}, mines = {||},
                  safes = {|(0, 0), (0, 1), (1, 0), (1, 1)|}, knowledge = []\<rparr> (0, 0) 0 =
     Inr \<lparr>height = 8, width = 8, moves_made = {|(0, 0)|}, mines = {||},
          safes = {|(0, 0), (0, 1), (1, 0), (1, 1)|}, knowledge = []\<rparr> \<and>
   run (init 8 8) [AddKnowledge (0, 0) 3] =
     Inr \<lparr>height = 8, width = 8, moves_made = {|(0, 0)|},
          mines = {|(0, 1), (1, 0), (1, 1)|}, safes = {|(0, 0)|}, knowledge = []\<rparr> \<and>
   add_knowledge \<lparr>height = 8, width = 8, moves_made = {|(0, 0)|},
                  mines = {|(0, 1), (1, 0), (1, 1)|}, safes = {|(0, 0)|}, knowledge = []\<rparr>
       (0, 0) 3 =
     Inr \<lparr>height = 8, width = 8, moves_made = {|(0, 0)|},
          mines = {|(0, 1), (1, 0), (1, 1)|}, safes = {|(0, 0)|}, knowledge = []\<rparr> \<and>
   \<not> leaves_unchanged
       \<lparr>height = 8, width = 8, moves_made = {|(0, 0)|}, mines = {||}, safes = {|(0, 0)|},
        knowledge = [\<lparr>cells = {|(0, 1), (1, 0), (1, 1)|}, count = 1\<rparr>]\<rparr> (0, 0) 1 \<and>
   add_knowledge
       \<lparr>height = 8, width = 8, moves_made = {|(0, 0)|}, mines = {||}, safes = {|(0, 0)|},
        knowledge = [\<lparr>cells = {|(0, 1), (1, 0), (1, 1)|}, count = 1\<rparr>]\<rparr> (0, 0) 1 \<noteq>
     Inr \<lparr>height = 8, width = 8, moves_made = {|(0, 0)|}, mines = {||}, safes = {|(0, 0)|},
          knowledge = [\<lparr>cells = {|(0, 1), (1, 0), (1, 1)|}, count = 1\<rparr>]\<rparr>"
proof -
  let ?a = "\<lparr>height = 8, width = 8, moves_made = {|(0, 0)|}, mines = {||},
             safes = {|(0, 0), (0, 1), (1, 0), (1, 1)|}, knowledge = []\<rparr>"
  let ?b = "\<lparr>height = 8, width = 8, moves_made = {|(0, 0)|},
             mines = {|(0, 1), (1, 0), (1, 1)|}, safes = {|(0, 0)|}, knowledge = []\<rparr>"
  let ?c = "\<lparr>height = 8, width = 8, moves_made = {|(0, 0)|}, mines = {||}, safes = {|(0, 0)|},
             knowledge = [\<lparr>cells = {|(0, 1), (1, 0), (1, 1)|}, count = 1\<rparr>]\<rparr>"
  have ma: "(0, 0) |\<in>| moves_made ?a" by simp
  have mb: "(0, 0) |\<in>| moves_made ?b" by simp
  have mc: "(0, 0) |\<in>| moves_made ?c" by simp
  have la: "leaves_unchanged ?a (0, 0) 0" by code_simp
  have lb: "leaves_unchanged ?b (0, 0) 3" by code_simp
  have lc: "\<not> leaves_unchanged ?c (0, 0) 1" by code_simp
  have rb: "run (init 8 8) [AddKnowledge (0, 0) 3] = Inr ?b" by code_simp
  from add_knowledge_again[OF ma, of 0] la have a: "add_knowledge ?a (0, 0) 0 = Inr ?a" by auto
  from add_knowledge_again[OF mb, of 3] lb have b: "add_knowledge ?b (0, 0) 3 = Inr ?b" by auto
  from add_knowledge_again[OF mc, of 1] lc have c: "add_knowledge ?c (0, 0) 1 \<noteq> Inr ?c" by auto
  from ma a rb b lc c show ?thesis by blast
qed

text \<open>
  The second call is no no-op in general: after \<open>add_knowledge((0, 0), 1)\<close> on a fresh
  object, the same call again appends the sentence \<open>{(0, 1), (1, 0), (1, 1)} = 1\<close> a second
  time.
\<close>

theorem add_knowledge_twice_differs:
  "run (init 8 8) [AddKnowledge (0, 0) 1] =
     Inr \<lparr>height = 8, width = 8, moves_made = {|(0, 0)|}, mines = {||}, safes = {|(0, 0)|},
          knowledge = [\<lparr>cells = {|(0, 1), (1, 0), (1, 1)|}, count = 1\<rparr>]\<rparr> \<and>
   add_knowledge
     \<lparr>height = 8, width = 8, moves_made = {|(0, 0)|}, mines = {||}, safes = {|(0, 0)|},
      knowledge = [\<lparr>cells = {|(0, 1), (1, 0), (1, 1)|}, count = 1\<rparr>]\<rparr> (0, 0) 1 =
     Inr \<lparr>height = 8, width = 8, moves_made = {|(0, 0)|}, mines = {||}, safes = {|(0, 0)|},
          knowledge = [\<lparr>cells = {|(0, 1), (1, 0), (1, 1)|}, count = 1\<rparr>,
                       \<lparr>cells = {|(0, 1), (1, 0), (1, 1)|}, count = 1\<rparr>]\<rparr> \<and>
   \<lparr>height = 8, width = 8, moves_made = {|(0, 0)|}, mines = {||}, safes = {|(0, 0)|},
    knowledge = [\<lparr>cells = {|(0, 1), (1, 0), (1, 1)|}, count = 1\<rparr>,
                 \<lparr>cells = {|(0, 1), (1, 0), (1, 1)|}, count = 1\<rparr>]\<rparr> \<noteq>
   \<lparr>height = 8, width = 8, moves_made = {|(0, 0)|}, mines = {||}, safes = {|(0, 0)|},
    knowledge = [\<lparr>cells = {|(0, 1), (1, 0), (1, 1)|}, count = 1\<rparr>]\<rparr>"
  by code_simp

subsection \<open>C5: counts out of range\<close>

text \<open>
  Claim C5, as amended.  \<open>add_knowledge\<close> rejects no count: for every state, cell and
  count, negative counts and counts above the number of collected neighbours included,
  the call returns without an exception, with the cell added to \<open>self.moves_made\<close> and a
  member of \<open>self.safes\<close>.
\<close>

theorem add_knowledge_never_rejects:
  "\<exists>self'. add_knowledge self cell n = Inr self' \<and>
     moves_made self' = finsert cell (moves_made self) \<and> cell |\<in>| safes self'"
  using add_knowledge_grows[of self cell n] by auto

text \<open>
  On a fresh object \<open>(0, 0)\<close> has three neighbours to collect; the counts \<open>-1\<close> and 4 are
  both accepted, the sentence is stored with the count as given, and the state differs
  from the fresh one.
\<close>

theorem add_knowledge_accepts_bad_count:
  "current_knowledge_cells
     \<lparr>height = 8, width = 8, moves_made = {|(0, 0)|}, mines = {||}, safes = {|(0, 0)|},
      knowledge = []\<rparr> (0, 0) = [(0, 1), (1, 0), (1, 1)] \<and>
   add_knowledge (init 8 8) (0, 0) (- 1) =
     Inr \<lparr>height = 8, width = 8, moves_made = {|(0, 0)|}, mines = {||}, safes = {|(0, 0)|},
          knowledge = [\<lparr>cells = {|(0, 1), (1, 0), (1, 1)|}, count = - 1\<rparr>]\<rparr> \<and>
   add_knowledge (init 8 8) (0, 0) 4 =
     Inr \<lparr>height = 8, width = 8, moves_made = {|(0, 0)|}, mines = {||}, safes = {|(0, 0)|},
          knowledge = [\<lparr>cells = {|(0, 1), (1, 0), (1, 1)|}, count = 4\<rparr>]\<rparr> \<and>
   \<lparr>height = 8, width = 8, moves_made = {|(0, 0)|}, mines = {||}, safes = {|(0, 0)|},
    knowledge = [\<lparr>cells = {|(0, 1), (1, 0), (1, 1)|}, count = - 1\<rparr>]\<rparr> \<noteq> init 8 8"
  by code_simp

subsection \<open>C6: resolved cells in live sentences\<close>

text \<open>
  Claim C6 asks that no sentence of the knowledge base mentions a cell of \<open>self.mines\<close> or
  \<open>self.safes\<close>.  On a board of three rows and columns with its one mine at \<open>(0, 1)\<close>,
  the probes of \<open>(0, 0)\<close> with count 1 and of \<open>(2, 2)\<close> with count 0 end with \<open>(1, 1)\<close> in
  \<open>self.safes\<close> and still in the sentence \<open>{(0, 1), (1, 0), (1, 1)} = 1\<close>: the loop adds
  the cells \<open>known_safes()\<close> gives with \<open>self.safes.update\<close>, which touches no sentence,
  where \<open>mark_safe\<close> would have removed them from every sentence as \<open>mark_mine\<close> does for
  the mines.
\<close>

theorem safe_cell_left_in_sentence:
  "list_all (agrees \<lparr>board_height = 3, board_width = 3,
                      board = [[False, True, False], [False, False, False],
                               [False, False, False]]\<rparr>)
     [AddKnowledge (0, 0) 1, AddKnowledge (2, 2) 0] \<and>
   run (init 3 3) [AddKnowledge (0, 0) 1, AddKnowledge (2, 2) 0] =
     Inr \<lparr>height = 3, width = 3, moves_made = {|(0, 0), (2, 2)|}, mines = {||},
          safes = {|(0, 0), (2, 2), (1, 1), (1, 2), (2, 1)|},
          knowledge = [\<lparr>cells = {|(0, 1), (1, 0), (1, 1)|}, count = 1\<rparr>]\<rparr> \<and>
   \<not> purged \<lparr>height = 3, width = 3, moves_made = {|(0, 0), (2, 2)|}, mines = {||},
          safes = {|(0, 0), (2, 2), (1, 1), (1, 2), (2, 1)|},
          knowledge = [\<lparr>cells = {|(0, 1), (1, 0), (1, 1)|}, count = 1\<rparr>]\<rparr>"
  by code_simp

subsection \<open>C7: the two sets only grow\<close>

text \<open>
  Claim C7.  For every state and every finite sequence of \<open>add_knowledge\<close> calls on it,
  all calls return without an exception, and every cell that was in \<open>self.mines\<close> or in
  \<open>self.safes\<close> before the calls is in the same set after them.
\<close>

theorem mines_safes_only_grow:
  "\<exists>self'. run self (map (\<lambda>(cell, n). AddKnowledge cell n) observations) = Inr self' \<and>
     mines self |\<subseteq>| mines self' \<and> safes self |\<subseteq>| safes self'"
  using run_grows[of self "map (\<lambda>(cell, n). AddKnowledge cell n) observations"] by blast

subsection \<open>C8: the two local deductions of a sentence\<close>

text \<open>
  Claim C8.  For every sentence, \<open>known_mines()\<close> returns exactly the whole cell set when
  the count equals the number of cells and the empty set otherwise, \<open>known_safes()\<close>
  returns exactly the whole cell set when the count is 0 and the empty set otherwise,
  and both leave the sentence as it was.
\<close>

theorem known_mines_known_safes_exact:
  "known_mines s = (if int (fcard (cells s)) = count s then cells s else {||}, s) \<and>
   known_safes s = (if count s = 0 then cells s else {||}, s)"
  by (simp add: known_mines_def known_safes_def fold_finsert)

subsection \<open>C9: the random move\<close>

text \<open>
  Claim C9 asks that \<open>make_random_move\<close> returns \<open>None\<close> exactly when no cell of the
  board is left outside \<open>self.moves_made\<close> and \<open>self.mines\<close>, and that it always returns.
  The method tests \<open>len(self.moves_made) == 56\<close> instead.  On a board of one cell, after
  \<open>add_knowledge((0, 0), 0)\<close>, no candidate is left, the test fails, and the loop draws
  \<open>(0, 0)\<close> for ever, whatever the randomness source: the call does not return.  On the
  board of eight rows and columns, once the 56 cells of rows 0 to 6 are probed and no
  mine is known, the eight cells of row 7 are candidates and the call returns \<open>None\<close>.
\<close>

theorem make_random_move_wrong_end:
  "run (init 1 1) [AddKnowledge (0, 0) 0] =
     Inr \<lparr>height = 1, width = 1, moves_made = {|(0, 0)|}, mines = {||}, safes = {|(0, 0)|},
          knowledge = []\<rparr> \<and>
   candidates \<lparr>height = 1, width = 1, moves_made = {|(0, 0)|}, mines = {||},
               safes = {|(0, 0)|}, knowledge = []\<rparr> = {||} \<and>
   make_random_move rng \<lparr>height = 1, width = 1, moves_made = {|(0, 0)|}, mines = {||},
                          safes = {|(0, 0)|}, knowledge = []\<rparr> = None \<and>
   (7, 7) |\<in>| candidates
     \<lparr>height = 8, width = 8,
      moves_made = fset_of_list (concat (map (\<lambda>i. map (\<lambda>j. (i, j)) [0..7]) [0..6])),
      mines = {||},
      safes = fset_of_list (concat (map (\<lambda>i. map (\<lambda>j. (i, j)) [0..7]) [0..6])),
      knowledge = []\<rparr> \<and>
   make_random_move rng
     \<lparr>height = 8, width = 8,
      moves_made = fset_of_list (concat (map (\<lambda>i. map (\<lambda>j. (i, j)) [0..7]) [0..6])),
      mines = {||},
      safes = fset_of_list (concat (map (\<lambda>i. map (\<lambda>j. (i, j)) [0..7]) [0..6])),
      knowledge = []\<rparr> = Some (Inr None)"
proof -
  let ?st = "\<lparr>height = 1, width = 1, moves_made = {|(0, 0)|}, mines = {||}, safes = {|(0, 0)|},
          knowledge = []\<rparr>"
  let ?M = "fset_of_list (concat (map (\<lambda>i. map (\<lambda>j. (i, j)) [0..7]) [0..6])) :: cell fset"
  let ?full = "\<lparr>height = 8, width = 8, moves_made = ?M, mines = {||}, safes = ?M,
      knowledge = []\<rparr>"
  have 1: "run (init 1 1) [AddKnowledge (0, 0) 0] = Inr ?st" by code_simp
  have 2: "candidates ?st = {||}" by code_simp
  have "fcard (moves_made ?st) \<noteq> 56" by code_simp
  with 2 have 3: "make_random_move rng ?st = None"
    by (intro make_random_move_no_candidates) simp_all
  have 4: "(7, 7) |\<in>| candidates ?full" by code_simp
  have "fcard ?M = 56" by code_simp
  then have 5: "make_random_move rng ?full = Some (Inr None)"
    by (simp add: make_random_move_def)
  from 1 2 3 4 5 show ?thesis by blast
qed

subsection \<open>C10: \<open>make_safe_move\<close> only reads\<close>

text \<open>
  Claim C10.  For every object whose references are allocated and every choice \<open>pop\<close>
  may make, \<open>make_safe_move\<close> returns without an exception and the values of
  \<open>self.moves_made\<close>, \<open>self.mines\<close>, \<open>self.safes\<close> and \<open>self.knowledge\<close> in the store it
  leaves are those before the call: the set it updates and pops from is the copy it
  allocated.  A result other than \<open>None\<close> is a member of \<open>self.safes\<close> that is not in
  \<open>self.moves_made\<close>, and the result is \<open>None\<close> only if there is no such cell.
\<close>

theorem make_safe_move_reads_only:
  assumes "refs_ok self h" "pick_ok pick"
  shows "\<exists>h' r. make_safe_move pick self h = (h', Inr r) \<and>
           field_values self h' = field_values self h \<and>
           (case r of
              None \<Rightarrow> safes (field_values self h) |-| moves_made (field_values self h) = {||}
            | Some c \<Rightarrow> c |\<in>| safes (field_values self h) \<and>
                         c |\<notin>| moves_made (field_values self h))"
proof -
  let ?D = "h ! safes_ref self |-| h ! moves_made_ref self"
  have m: "moves_made_ref self < length h" using assms(1) by (simp add: refs_ok_def)
  have h2: "set_isub (h @ [h ! safes_ref self]) (length h) (moves_made_ref self) = h @ [?D]"
    using m by (simp add: set_isub_def nth_append)
  have sf: "safes (field_values self h) = h ! safes_ref self"
    "moves_made (field_values self h) = h ! moves_made_ref self"
    by (simp_all add: field_values_def)
  show ?thesis
  proof (cases "?D = {||}")
    case True
    then have "make_safe_move pick self h = (h @ [?D], Inr None)"
      by (simp add: make_safe_move_def set_copy_def h2)
    then show ?thesis using True field_values_alloc[OF assms(1)] sf by simp
  next
    case False
    then have p: "pick ?D |\<in>| ?D" using assms(2) unfolding pick_ok_def by blast
    have "make_safe_move pick self h = (h @ [?D |-| {|pick ?D|}], Inr (Some (pick ?D)))"
      using False by (simp add: make_safe_move_def set_copy_def h2 set_pop_def Let_def)
    then show ?thesis using p field_values_alloc[OF assms(1)] sf by simp
  qed
qed

text \<open>The theorem on a store of four sets, with \<open>pop\<close> taking the least element.\<close>

theorem make_safe_move_reads_only_witness:
  "refs_ok \<lparr>height_of = 8, width_of = 8, moves_made_ref = 0, mines_ref = 1, safes_ref = 2,
            knowledge_refs = [(3, 1)]\<rparr>
     [{|(0, 0)|}, {||}, {|(0, 0), (0, 1)|}, {|(1, 0), (1, 1)|}] \<and>
   pick_ok pick_least \<and>
   make_safe_move pick_least
     \<lparr>height_of = 8, width_of = 8, moves_made_ref = 0, mines_ref = 1, safes_ref = 2,
      knowledge_refs = [(3, 1)]\<rparr>
     [{|(0, 0)|}, {||}, {|(0, 0), (0, 1)|}, {|(1, 0), (1, 1)|}] =
     ([{|(0, 0)|}, {||}, {|(0, 0), (0, 1)|}, {|(1, 0), (1, 1)|}, {||}], Inr (Some (0, 1))) \<and>
   field_values
     \<lparr>height_of = 8, width_of = 8, moves_made_ref = 0, mines_ref = 1, safes_ref = 2,
      knowledge_refs = [(3, 1)]\<rparr>
     [{|(0, 0)|}, {||}, {|(0, 0), (0, 1)|}, {|(1, 0), (1, 1)|}, {||}] =
   field_values
     \<lparr>height_of = 8, width_of = 8, moves_made_ref = 0, mines_ref = 1, safes_ref = 2,
      knowledge_refs = [(3, 1)]\<rparr>
     [{|(0, 0)|}, {||}, {|(0, 0), (0, 1)|}, {|(1, 0), (1, 1)|}]"
proof -
  let ?obj = "\<lparr>height_of = 8, width_of = 8, moves_made_ref = 0, mines_ref = 1, safes_ref = 2,
            knowledge_refs = [(3, 1)]\<rparr>"
  let ?h = "[{|(0, 0)|}, {||}, {|(0, 0), (0, 1)|}, {|(1, 0), (1, 1)|}] :: store"
  have r: "refs_ok ?obj ?h" by (simp add: refs_ok_def)
  have e: "make_safe_move pick_least ?obj ?h = (?h @ [{||}], Inr (Some (0, 1)))"
    by code_simp
  from make_safe_move_reads_only[OF r pick_least_ok] e r pick_least_ok show ?thesis by auto
qed

end
